theory Spec2Isabelle
  imports Main "HOL-Library.Word"
begin

unbundle bit_operations_syntax

section \<open>Bytes, machine integers and faults\<close>

text \<open>
  The block reader of \<^verbatim>\<open>table/block.cc\<close> works on raw bytes with \<^verbatim>\<open>uint32_t\<close>,
  \<^verbatim>\<open>uint64_t\<close> and \<^verbatim>\<open>size_t\<close> arithmetic. Bytes are 8-bit words, the fixed-width
  integers are words of their width (so \<open>+\<close>, \<open>-\<close> and \<open>*\<close> wrap as in C++), and
  \<^verbatim>\<open>size_t\<close> is taken as 64 bits wide. A pointer into a buffer is the offset of the byte
  it points at.

  C++ has behaviour that a total HOL function cannot show by itself: a failed
  \<^verbatim>\<open>assert\<close>, a read or write outside a buffer, a division by zero, a difference of
  pointers into different objects. Each is a value of type \<open>fault\<close>, and a function that
  can run into one returns \<open>fault + 'a\<close>.
\<close>

type_synonym byte = "8 word"
type_synonym bytes = "byte list"
type_synonym u32 = "32 word"
type_synonym u64 = "64 word"

datatype fault = AssertionFailed | OutOfBounds | DivisionByZero | UnrelatedPointers

datatype Status = OK | Corruption string

section \<open>The integer codecs of util/coding\<close>

text \<open>
  Modelled from the spec: \<^verbatim>\<open>util/coding.h\<close> and \<^verbatim>\<open>util/coding.cc\<close> (\<^verbatim>\<open>DecodeFixed32\<close>,
  \<^verbatim>\<open>DecodeFixed64\<close>, \<^verbatim>\<open>PutFixed64\<close>, \<^verbatim>\<open>PutVarint32\<close>, \<^verbatim>\<open>GetVarint32\<close>,
  \<^verbatim>\<open>GetVarint32Ptr\<close>) are not among the sources. The spec fixes them as the
  "little-endian u32/u64 read/write" and the "standard little-endian base-128 varint32
  with continuation bit": at most five bytes, seven payload bits each, the high bit set on
  every byte but the last.
\<close>

text \<open>Modelled from the spec: the little-endian value of the bytes given (four of them).\<close>

definition DecodeFixed32 :: "bytes \<Rightarrow> u32" where
  "DecodeFixed32 bs = foldr (\<lambda>b acc. ucast b OR push_bit 8 acc) bs 0"

text \<open>Modelled from the spec: the little-endian value of the bytes given (eight of them).\<close>

definition DecodeFixed64 :: "bytes \<Rightarrow> u64" where
  "DecodeFixed64 bs = foldr (\<lambda>b acc. ucast b OR push_bit 8 acc) bs 0"

text \<open>Modelled from the spec: the eight bytes of a 64-bit value, lowest first.\<close>

definition EncodeFixed64 :: "u64 \<Rightarrow> bytes" where
  "EncodeFixed64 v =
     [ucast v, ucast (drop_bit 8 v), ucast (drop_bit 16 v), ucast (drop_bit 24 v),
      ucast (drop_bit 32 v), ucast (drop_bit 40 v), ucast (drop_bit 48 v),
      ucast (drop_bit 56 v)]"

definition PutFixed64 :: "bytes \<Rightarrow> u64 \<Rightarrow> bytes" where
  "PutFixed64 dst v = dst @ EncodeFixed64 v"

text \<open>Modelled from the spec: the base-128 encoding of a 32-bit value.\<close>

function EncodeVarint32 :: "u32 \<Rightarrow> bytes" where
  "EncodeVarint32 v =
     (if v < 128 then [ucast v] else (ucast v OR 128) # EncodeVarint32 (drop_bit 7 v))"
  by pat_completeness auto
termination
proof (relation "measure unat")
  show "wf (measure (unat :: u32 \<Rightarrow> nat))"
    by simp
next
  fix v :: u32
  assume "\<not> v < 128"
  then have "128 \<le> unat v"
    by (simp add: word_less_nat_alt)
  then have "unat v div 128 < unat v"
    by simp
  then show "(drop_bit 7 v, v) \<in> measure unat"
    by (simp add: drop_bit_eq_div unat_div)
qed

declare EncodeVarint32.simps [simp del]

definition PutVarint32 :: "bytes \<Rightarrow> u32 \<Rightarrow> bytes" where
  "PutVarint32 dst v = dst @ EncodeVarint32 v"

text \<open>
  Modelled from the spec: the varint32 decoder. The argument is the byte range from the
  read pointer to the limit; the result is the value and the range that is left (the
  advanced pointer), or \<open>None\<close> (the NULL pointer) when the range ends inside the number
  or a sixth byte would be needed. \<open>shift\<close> counts 0, 7, ..., 28.
\<close>

fun GetVarint32Ptr_loop :: "nat \<Rightarrow> u32 \<Rightarrow> bytes \<Rightarrow> (u32 \<times> bytes) option" where
  "GetVarint32Ptr_loop shift result [] = None"
| "GetVarint32Ptr_loop shift result (b # bs) =
     (if 28 < shift then None
      else
        let byte = (ucast b :: u32) in
        if byte AND 128 \<noteq> 0
        then GetVarint32Ptr_loop (shift + 7) (result OR push_bit shift (byte AND 127)) bs
        else Some (result OR push_bit shift byte, bs))"

definition GetVarint32Ptr :: "bytes \<Rightarrow> (u32 \<times> bytes) option" where
  "GetVarint32Ptr bs = GetVarint32Ptr_loop 0 0 bs"

text \<open>\<^verbatim>\<open>GetVarint32(Slice*, uint32_t*)\<close>: the same on a slice, which it advances.\<close>

definition GetVarint32 :: "bytes \<Rightarrow> (u32 \<times> bytes) option" where
  "GetVarint32 input = GetVarint32Ptr input"

section \<open>BlockMetrics\<close>

text \<open>
  The fields of \<^verbatim>\<open>BlockMetrics\<close>; a field \<^verbatim>\<open>x_\<close> of the class is \<open>bm_x\<close> here.
  \<open>bm_metrics\<close> is the heap array the constructors allocate with
  \<^verbatim>\<open>num_restarts_*bytes_per_restart_\<close> bytes, a product of two \<^verbatim>\<open>uint32_t\<close> that wraps
  at 32 bits.
\<close>

record BlockMetrics =
  bm_file_number :: u64
  bm_block_offset :: u64
  bm_num_restarts :: u32
  bm_bytes_per_restart :: u32
  bm_metrics :: bytes

text \<open>The size both constructors give the bitmap.\<close>

definition metrics_size :: "BlockMetrics \<Rightarrow> nat" where
  "metrics_size m = unat (bm_num_restarts m * bm_bytes_per_restart m)"

text \<open>The constructor of a zeroed bitmap (lines 369-376).\<close>

definition BlockMetrics_new :: "u64 \<Rightarrow> u64 \<Rightarrow> u32 \<Rightarrow> u32 \<Rightarrow> BlockMetrics" where
  "BlockMetrics_new file_number block_offset num_restarts bytes_per_restart =
     \<lparr>bm_file_number = file_number, bm_block_offset = block_offset,
      bm_num_restarts = num_restarts, bm_bytes_per_restart = bytes_per_restart,
      bm_metrics = replicate (unat (num_restarts * bytes_per_restart)) 0\<rparr>"

text \<open>
  The constructor from stored bytes (lines 378-388). Its \<^verbatim>\<open>assert\<close> is the only check of
  the length of \<open>data\<close>.
\<close>

definition BlockMetrics_from_data ::
  "u64 \<Rightarrow> u64 \<Rightarrow> u32 \<Rightarrow> u32 \<Rightarrow> bytes \<Rightarrow> fault + BlockMetrics" where
  "BlockMetrics_from_data file_number block_offset num_restarts bytes_per_restart data =
     (if length data \<noteq> unat (num_restarts * bytes_per_restart) then Inl AssertionFailed
      else Inr \<lparr>bm_file_number = file_number, bm_block_offset = block_offset,
                bm_num_restarts = num_restarts, bm_bytes_per_restart = bytes_per_restart,
                bm_metrics = data\<rparr>)"

text \<open>
  \<^verbatim>\<open>BlockMetrics::Create(file_number, block_offset, db_value)\<close> (lines 394-406). The
  result \<open>Inr None\<close> is the NULL pointer.
\<close>

definition Create :: "u64 \<Rightarrow> u64 \<Rightarrow> bytes \<Rightarrow> fault + BlockMetrics option" where
  "Create file_number block_offset db_value =
     (case GetVarint32 db_value of
        None \<Rightarrow> Inr None
      | Some (num_restarts, data1) \<Rightarrow>
          (case GetVarint32 data1 of
             None \<Rightarrow> Inr None
           | Some (bytes_per_restart, data2) \<Rightarrow>
               (case BlockMetrics_from_data file_number block_offset num_restarts
                       bytes_per_restart data2 of
                  Inl e \<Rightarrow> Inl e
                | Inr m \<Rightarrow> Inr (Some m))))"

text \<open>\<^verbatim>\<open>BlockMetrics::Create(db_key, db_value)\<close> (lines 408-416).\<close>

definition Create_kv :: "bytes \<Rightarrow> bytes \<Rightarrow> fault + BlockMetrics option" where
  "Create_kv db_key db_value =
     (if length db_key \<noteq> 16 then Inr None
      else
        let file_number = DecodeFixed64 (take 8 db_key);
            block_offset = DecodeFixed64 (take 8 (drop 8 db_key))
        in Create file_number block_offset db_value)"

text \<open>
  \<^verbatim>\<open>RecordAccess\<close> and \<^verbatim>\<open>IsHot\<close> (lines 418-434) compute the same two indices:
  \<^verbatim>\<open>bitIdx = restart_offset % (bytes_per_restart_ * 8u)\<close> in 32-bit arithmetic, where a
  zero divisor is a division by zero, and
  \<^verbatim>\<open>byteIdx = restart_index*bytes_per_restart_ + bitIdx/8\<close>, a 32-bit product widened to
  \<^verbatim>\<open>size_t\<close>. Neither function compares \<open>byteIdx\<close> with the size of the bitmap.
\<close>

definition bitIdx :: "BlockMetrics \<Rightarrow> u32 \<Rightarrow> fault + nat" where
  "bitIdx m restart_offset =
     (if bm_bytes_per_restart m * 8 = 0 then Inl DivisionByZero
      else Inr (unat (restart_offset mod (bm_bytes_per_restart m * 8))))"

definition byteIdx :: "BlockMetrics \<Rightarrow> u32 \<Rightarrow> u32 \<Rightarrow> fault + nat" where
  "byteIdx m restart_index restart_offset =
     (case bitIdx m restart_offset of
        Inl e \<Rightarrow> Inl e
      | Inr bi \<Rightarrow> Inr (unat (restart_index * bm_bytes_per_restart m) + bi div 8))"

definition RecordAccess :: "BlockMetrics \<Rightarrow> u32 \<Rightarrow> u32 \<Rightarrow> fault + BlockMetrics" where
  "RecordAccess m restart_index restart_offset =
     (case bitIdx m restart_offset of
        Inl e \<Rightarrow> Inl e
      | Inr bi \<Rightarrow>
          let by = unat (restart_index * bm_bytes_per_restart m) + bi div 8 in
          if length (bm_metrics m) \<le> by then Inl OutOfBounds
          else Inr (m\<lparr>bm_metrics :=
                 (bm_metrics m)[by := (bm_metrics m ! by) OR push_bit (bi mod 8) 1]\<rparr>))"

definition IsHot :: "BlockMetrics \<Rightarrow> u32 \<Rightarrow> u32 \<Rightarrow> fault + bool" where
  "IsHot m restart_index restart_offset =
     (case bitIdx m restart_offset of
        Inl e \<Rightarrow> Inl e
      | Inr bi \<Rightarrow>
          let by = unat (restart_index * bm_bytes_per_restart m) + bi div 8 in
          if length (bm_metrics m) \<le> by then Inl OutOfBounds
          else Inr ((bm_metrics m ! by) AND push_bit (bi mod 8) 1 \<noteq> 0))"

text \<open>\<^verbatim>\<open>GetDBKey\<close> (lines 436-441): the second field written is \<^verbatim>\<open>bytes_per_restart_\<close>.\<close>

definition GetDBKey :: "BlockMetrics \<Rightarrow> bytes" where
  "GetDBKey m =
     (let key = PutFixed64 [] (bm_file_number m)
      in PutFixed64 key (ucast (bm_bytes_per_restart m)))"

text \<open>
  \<^verbatim>\<open>GetDBValue\<close> (lines 443-450) appends \<^verbatim>\<open>num_restarts_*bytes_per_restart_\<close> bytes read
  from \<^verbatim>\<open>metrics_\<close>.
\<close>

definition GetDBValue :: "BlockMetrics \<Rightarrow> fault + bytes" where
  "GetDBValue m =
     (let v1 = PutVarint32 [] (bm_num_restarts m);
          v2 = PutVarint32 v1 (bm_bytes_per_restart m)
      in if length (bm_metrics m) < metrics_size m then Inl OutOfBounds
         else Inr (v2 @ take (metrics_size m) (bm_metrics m)))"

text \<open>
  Scenario S6 of the spec: three restart regions, two bytes each, after the accesses
  \<open>(0,3)\<close> and \<open>(1,7)\<close>; file 7, block offset 4096.
\<close>

definition metrics_S6 :: BlockMetrics where
  "metrics_S6 =
     \<lparr>bm_file_number = 7, bm_block_offset = 4096, bm_num_restarts = 3,
      bm_bytes_per_restart = 2, bm_metrics = [8, 0, 128, 0, 0, 0]\<rparr>"

section \<open>The entry codec\<close>

text \<open>
  \<^verbatim>\<open>DecodeEntry(p, limit, &shared, &non_shared, &value_length)\<close> (lines 57-78). The two
  pointers come as the byte range \<open>[p, limit)\<close> they delimit, which is empty when \<open>p\<close> is
  at or past \<open>limit\<close>; the pointer returned comes as the range that is left, from that
  pointer to \<open>limit\<close>. \<open>None\<close> is the NULL pointer. The last check compares in 32 bits,
  and \<^verbatim>\<open>*non_shared + *value_length\<close> wraps.
\<close>

definition DecodeEntry :: "bytes \<Rightarrow> (u32 \<times> u32 \<times> u32 \<times> bytes) option" where
  "DecodeEntry bs =
     (if length bs < 3 then None
      else
        let shared = (ucast (bs ! 0) :: u32);
            non_shared = (ucast (bs ! 1) :: u32);
            value_length = (ucast (bs ! 2) :: u32)
        in
          case (if (shared OR non_shared OR value_length) < 128
                then Some (shared, non_shared, value_length, drop 3 bs)
                else
                  (case GetVarint32Ptr bs of
                     None \<Rightarrow> None
                   | Some (shared, p1) \<Rightarrow>
                       (case GetVarint32Ptr p1 of
                          None \<Rightarrow> None
                        | Some (non_shared, p2) \<Rightarrow>
                            (case GetVarint32Ptr p2 of
                               None \<Rightarrow> None
                             | Some (value_length, p3) \<Rightarrow>
                                 Some (shared, non_shared, value_length, p3))))) of
            None \<Rightarrow> None
          | Some (shared, non_shared, value_length, p) \<Rightarrow>
              if (of_nat (length p) :: u32) < non_shared + value_length then None
              else Some (shared, non_shared, value_length, p))"

section \<open>The block handle\<close>

text \<open>
  The fields of \<^verbatim>\<open>Block\<close>; a field \<^verbatim>\<open>x_\<close> of the class is \<open>b_x\<close> here. The header
  \<^verbatim>\<open>table/block.h\<close> is not among the sources: \<^verbatim>\<open>size_\<close> is a \<^verbatim>\<open>size_t\<close> (it is
  compared with \<^verbatim>\<open>sizeof\<close>) and \<^verbatim>\<open>restart_offset_\<close> is taken as the \<^verbatim>\<open>uint32_t\<close> that
  the constructor of \<^verbatim>\<open>Iter\<close> receives it as and that "wrapped around" (line 38) can
  exceed \<^verbatim>\<open>size_\<close>. \<^verbatim>\<open>owned_\<close> only matters to the destructor and is left out.
\<close>

record Block =
  b_data :: bytes
  b_size :: u64
  b_restart_offset :: u32

text \<open>\<^verbatim>\<open>NumRestarts\<close> (lines 23-26) reads the last four bytes of the block.\<close>

definition NumRestarts :: "Block \<Rightarrow> fault + u32" where
  "NumRestarts b =
     (if b_size b < 8 then Inl AssertionFailed
      else if length (b_data b) < unat (b_size b) then Inl OutOfBounds
      else Inr (DecodeFixed32 (take 4 (drop (unat (b_size b) - 4) (b_data b)))))"

text \<open>
  The constructor (lines 28-42). \<^verbatim>\<open>(1 + NumRestarts())\<close> is a 32-bit sum, its product
  with \<^verbatim>\<open>sizeof(uint32_t)\<close> and the difference from \<^verbatim>\<open>size_\<close> are \<^verbatim>\<open>size_t\<close>
  arithmetic, and the assignment to \<^verbatim>\<open>restart_offset_\<close> keeps the low 32 bits.
  \<^verbatim>\<open>restart_offset_\<close> is not initialised on the first branch; it is 0 here and never read.
\<close>

definition Block_new :: "bytes \<Rightarrow> fault + Block" where
  "Block_new contents =
     (let b = \<lparr>b_data = contents, b_size = of_nat (length contents), b_restart_offset = 0\<rparr>
      in
        if b_size b < 4 then Inr (b\<lparr>b_size := 0\<rparr>)
        else
          (case NumRestarts b of
             Inl e \<Rightarrow> Inl e
           | Inr n \<Rightarrow>
               let b' = b\<lparr>b_restart_offset := ucast (b_size b - ucast (1 + n) * 4)\<rparr>
               in
                 if b_size b' - 4 < ucast (b_restart_offset b') then Inr (b'\<lparr>b_size := 0\<rparr>)
                 else Inr b'))"

section \<open>The block iterator\<close>

text \<open>
  A \<^verbatim>\<open>Slice\<close> is a pointer and a size. \<open>Slice off n\<close> points at offset \<open>off\<close> of the
  block's bytes; \<open>EmptySlice\<close> is the default and the cleared slice, whose pointer is the
  address of a string literal outside the block.
\<close>

datatype Slice = Slice nat nat | EmptySlice

text \<open>
  The fields of \<^verbatim>\<open>Block::Iter\<close> (lines 82-93); a field \<^verbatim>\<open>x_\<close> of the class is \<open>i_x\<close>
  here. The comparator is a parameter of \<open>Seek\<close>, the one function that calls it.
\<close>

record Iter =
  i_data :: bytes
  i_restarts :: u32
  i_num_restarts :: u32
  i_current :: u32
  i_restart_index :: u32
  i_restart_offset :: u32
  i_key :: bytes
  i_value :: Slice
  i_status :: Status

text \<open>The constructor (lines 122-134).\<close>

definition Iter_new :: "bytes \<Rightarrow> u32 \<Rightarrow> u32 \<Rightarrow> fault + Iter" where
  "Iter_new data restarts num_restarts =
     (if \<not> 0 < num_restarts then Inl AssertionFailed
      else Inr \<lparr>i_data = data, i_restarts = restarts, i_num_restarts = num_restarts,
                i_current = restarts, i_restart_index = num_restarts, i_restart_offset = 0,
                i_key = [], i_value = EmptySlice, i_status = OK\<rparr>)"

definition Valid :: "Iter \<Rightarrow> bool" where
  "Valid it \<longleftrightarrow> i_current it < i_restarts it"

text \<open>
  \<^verbatim>\<open>NextEntryOffset\<close> (lines 100-102): the end of \<^verbatim>\<open>value_\<close> as an offset from
  \<^verbatim>\<open>data_\<close>, cut to 32 bits. For the cleared slice the two pointers are unrelated.
\<close>

definition NextEntryOffset :: "Iter \<Rightarrow> fault + u32" where
  "NextEntryOffset it =
     (case i_value it of
        EmptySlice \<Rightarrow> Inl UnrelatedPointers
      | Slice off n \<Rightarrow> Inr (of_nat (off + n)))"

text \<open>\<^verbatim>\<open>GetRestartPoint\<close> (lines 104-107) reads four bytes of the restart array.\<close>

definition GetRestartPoint :: "Iter \<Rightarrow> u32 \<Rightarrow> fault + u32" where
  "GetRestartPoint it index =
     (if \<not> index < i_num_restarts it then Inl AssertionFailed
      else
        let p = unat (i_restarts it) + unat index * 4
        in if length (i_data it) < p + 4 then Inl OutOfBounds
           else Inr (DecodeFixed32 (take 4 (drop p (i_data it)))))"

text \<open>\<^verbatim>\<open>SeekToRestartPoint\<close> (lines 109-119).\<close>

definition SeekToRestartPoint :: "Iter \<Rightarrow> u32 \<Rightarrow> fault + Iter" where
  "SeekToRestartPoint it index =
     (case GetRestartPoint it index of
        Inl e \<Rightarrow> Inl e
      | Inr offset \<Rightarrow>
          Inr (it\<lparr>i_key := [], i_restart_index := index, i_restart_offset := - 1,
                  i_value := Slice (unat offset) 0\<rparr>))"

text \<open>\<^verbatim>\<open>CorruptionError\<close> (lines 232-239).\<close>

definition CorruptionError :: "Iter \<Rightarrow> Iter" where
  "CorruptionError it =
     it\<lparr>i_current := i_restarts it, i_restart_index := i_num_restarts it,
        i_restart_offset := 0, i_status := Corruption ''bad entry in block'',
        i_key := [], i_value := EmptySlice\<rparr>"

lemma unat_succ_less: "(x::u32) < n \<Longrightarrow> unat (x + 1) = unat x + 1"
proof -
  assume "x < n"
  then have "unat x < unat n" by (simp add: word_less_nat_alt)
  moreover have "unat n < 2 ^ 32" using unsigned_less[of n] by simp
  ultimately have "unat x + 1 < 2 ^ 32" by simp
  then show ?thesis by (simp add: unat_word_ariths)
qed

text \<open>The loop at the end of \<^verbatim>\<open>ParseNextKey\<close> (lines 264-268).\<close>

function ParseNextKey_restarts :: "Iter \<Rightarrow> fault + Iter" where
  "ParseNextKey_restarts it =
     (if i_restart_index it + 1 < i_num_restarts it
      then
        (case GetRestartPoint it (i_restart_index it + 1) of
           Inl e \<Rightarrow> Inl e
         | Inr offset \<Rightarrow>
             if offset < i_current it
             then ParseNextKey_restarts
                    (it\<lparr>i_restart_index := i_restart_index it + 1, i_restart_offset := 0\<rparr>)
             else Inr it)
      else Inr it)"
  by pat_completeness auto
termination
proof (relation "measure (\<lambda>it. unat (i_num_restarts it) - unat (i_restart_index it + 1))")
  show "wf (measure (\<lambda>it. unat (i_num_restarts it) - unat (i_restart_index it + 1)))"
    by simp
next
  fix it :: Iter and offset :: u32
  assume lt: "i_restart_index it + 1 < i_num_restarts it"
  let ?x = "i_restart_index it + 1"
  have "unat ?x < unat (i_num_restarts it)"
    using lt by (simp add: word_less_nat_alt)
  moreover have "unat (?x + 1) = unat ?x + 1"
    using lt by (rule unat_succ_less)
  ultimately show
    "(it\<lparr>i_restart_index := i_restart_index it + 1, i_restart_offset := 0\<rparr>, it)
       \<in> measure (\<lambda>it. unat (i_num_restarts it) - unat (i_restart_index it + 1))"
    by simp
qed

declare ParseNextKey_restarts.simps [simp del]

text \<open>
  \<^verbatim>\<open>ParseNextKey\<close> (lines 241-271). \<^verbatim>\<open>DecodeEntry\<close> gets the range from
  \<^verbatim>\<open>data_ + current_\<close> to \<^verbatim>\<open>data_ + restarts_\<close>; it reads nothing at or past its limit, so
  the call faults only if the limit itself is past the end of the buffer.
  \<^verbatim>\<open>key_.append(p, non_shared)\<close> reads \<open>non_shared\<close> bytes at \<open>p\<close>, which the 32-bit check
  of \<^verbatim>\<open>DecodeEntry\<close> does not keep inside the buffer when the sum wrapped.
\<close>

definition ParseNextKey :: "Iter \<Rightarrow> fault + (bool \<times> Iter)" where
  "ParseNextKey it =
     (case NextEntryOffset it of
        Inl e \<Rightarrow> Inl e
      | Inr cur \<Rightarrow>
          let it1 = it\<lparr>i_current := cur, i_restart_offset := i_restart_offset it + 1\<rparr>
          in
            if i_restarts it1 \<le> cur
            then Inr (False, it1\<lparr>i_current := i_restarts it1,
                                  i_restart_index := i_num_restarts it1,
                                  i_restart_offset := 0\<rparr>)
            else if length (i_data it1) < unat (i_restarts it1) then Inl OutOfBounds
            else
              (case DecodeEntry (drop (unat cur) (take (unat (i_restarts it1)) (i_data it1))) of
                 None \<Rightarrow> Inr (False, CorruptionError it1)
               | Some (shared, non_shared, value_length, rest) \<Rightarrow>
                   if length (i_key it1) < unat shared then Inr (False, CorruptionError it1)
                   else
                     let p = unat (i_restarts it1) - length rest
                     in
                       if length (i_data it1) < p + unat non_shared then Inl OutOfBounds
                       else
                         (case ParseNextKey_restarts
                                 (it1\<lparr>i_key := take (unat shared) (i_key it1) @
                                                 take (unat non_shared) (drop p (i_data it1)),
                                       i_value := Slice (p + unat non_shared)
                                                    (unat value_length)\<rparr>) of
                            Inl e \<Rightarrow> Inl e
                          | Inr it2 \<Rightarrow> Inr (True, it2))))"

lemma GetVarint32Ptr_loop_consumes:
  "GetVarint32Ptr_loop shift r bs = Some (v, rest) \<Longrightarrow> \<exists>pre. bs = pre @ rest \<and> pre \<noteq> []"
proof (induction shift r bs rule: GetVarint32Ptr_loop.induct)
  case (1 shift result)
  then show ?case by simp
next
  case (2 shift result b bs)
  show ?case
  proof (cases "(ucast b :: u32) AND 128 \<noteq> 0")
    case True
    with "2.prems" have le: "\<not> 28 < shift"
      and rec: "GetVarint32Ptr_loop (shift + 7) (result OR push_bit shift (ucast b AND 127)) bs
                  = Some (v, rest)"
      by (auto simp: Let_def split: if_splits)
    from "2.IH"[OF le refl True rec] obtain pre where "bs = pre @ rest" by blast
    then have "b # bs = (b # pre) @ rest" by simp
    then show ?thesis by blast
  next
    case False
    with "2.prems" have "rest = bs"
      by (auto simp: Let_def split: if_splits)
    then have "b # bs = [b] @ rest" by simp
    then show ?thesis by blast
  qed
qed

lemma GetVarint32Ptr_consumes:
  "GetVarint32Ptr bs = Some (v, rest) \<Longrightarrow> \<exists>pre. bs = pre @ rest \<and> pre \<noteq> []"
  unfolding GetVarint32Ptr_def by (rule GetVarint32Ptr_loop_consumes)

lemma unat_of_nat_le: "unat (of_nat n :: u32) \<le> n"
  by (simp add: unat_of_nat)

lemma DecodeEntry_Some:
  assumes "DecodeEntry bs = Some (shared, non_shared, value_length, rest)"
  shows "\<exists>pre. bs = pre @ rest \<and> 3 \<le> length pre \<and> unat (non_shared + value_length) \<le> length rest"
proof -
  from assms have len: "3 \<le> length bs"
    by (auto simp: DecodeEntry_def split: if_splits)
  let ?s = "(ucast (bs ! 0) :: u32)" and ?n = "(ucast (bs ! 1) :: u32)" and ?v = "(ucast (bs ! 2) :: u32)"
  let ?hdr = "(if (?s OR ?n OR ?v) < 128 then Some (?s, ?n, ?v, drop 3 bs)
                else (case GetVarint32Ptr bs of None \<Rightarrow> None
                   | Some (shared, p1) \<Rightarrow> (case GetVarint32Ptr p1 of None \<Rightarrow> None
                        | Some (non_shared, p2) \<Rightarrow> (case GetVarint32Ptr p2 of None \<Rightarrow> None
                             | Some (value_length, p3) \<Rightarrow> Some (shared, non_shared, value_length, p3)))))"
  from assms len have hdr: "?hdr = Some (shared, non_shared, value_length, rest)"
    and chk: "\<not> (of_nat (length rest) :: u32) < non_shared + value_length"
    by (auto simp: DecodeEntry_def Let_def split: if_splits option.splits)
  have pre: "\<exists>pre. bs = pre @ rest \<and> 3 \<le> length pre"
  proof (cases "(?s OR ?n OR ?v) < 128")
    case True
    with hdr have "rest = drop 3 bs" by simp
    then have "bs = take 3 bs @ rest" by simp
    moreover have "length (take 3 bs) = 3" using len by simp
    ultimately show ?thesis by (metis order_refl)
  next
    case False
    with hdr obtain s1 p1 n1 p2 v1 where
      g1: "GetVarint32Ptr bs = Some (s1, p1)" and
      g2: "GetVarint32Ptr p1 = Some (n1, p2)" and
      g3: "GetVarint32Ptr p2 = Some (v1, rest)"
      by (auto split: option.splits)
    from GetVarint32Ptr_consumes[OF g1] obtain a where a: "bs = a @ p1" "a \<noteq> []" by blast
    from GetVarint32Ptr_consumes[OF g2] obtain b where b: "p1 = b @ p2" "b \<noteq> []" by blast
    from GetVarint32Ptr_consumes[OF g3] obtain c where c: "p2 = c @ rest" "c \<noteq> []" by blast
    have "bs = (a @ b @ c) @ rest" using a b c by simp
    moreover have "3 \<le> length (a @ b @ c)"
      using a(2) b(2) c(2) by (cases a; cases b; cases c) simp_all
    ultimately show ?thesis by blast
  qed
  from chk have "unat (non_shared + value_length) \<le> unat (of_nat (length rest) :: u32)"
    by (simp add: word_less_nat_alt)
  then have "unat (non_shared + value_length) \<le> length rest"
    using unat_of_nat_le[of "length rest"] by simp
  with pre show ?thesis by blast
qed

lemma ParseNextKey_restarts_frame:
  "ParseNextKey_restarts it = Inr it' \<Longrightarrow>
   it' = it\<lparr>i_restart_index := i_restart_index it', i_restart_offset := i_restart_offset it'\<rparr>"
proof (induction it rule: ParseNextKey_restarts.induct)
  case (1 it)
  show ?case
  proof (cases "i_restart_index it + 1 < i_num_restarts it")
    case False
    with "1.prems" show ?thesis
      by (subst (asm) ParseNextKey_restarts.simps) simp
  next
    case True
    from "1.prems" True obtain offset where
      g: "GetRestartPoint it (i_restart_index it + 1) = Inr offset"
      by (subst (asm) ParseNextKey_restarts.simps) (auto split: sum.splits)
    show ?thesis
    proof (cases "offset < i_current it")
      case False
      with "1.prems" True g show ?thesis
        by (subst (asm) ParseNextKey_restarts.simps) simp
    next
      case lt: True
      let ?it1 = "it\<lparr>i_restart_index := i_restart_index it + 1, i_restart_offset := 0\<rparr>"
      from "1.prems" True g lt have "ParseNextKey_restarts ?it1 = Inr it'"
        by (subst (asm) ParseNextKey_restarts.simps) simp
      from "1.IH"[OF True g lt this] show ?thesis
        by (cases it') (auto)
    qed
  qed
qed

text \<open>
  The measure of every scanning loop: the bytes between the end of the current value and
  the restart array.
\<close>

definition bytes_left :: "Iter \<Rightarrow> nat" where
  "bytes_left it =
     (case NextEntryOffset it of
        Inl e \<Rightarrow> 0
      | Inr cur \<Rightarrow> unat (i_restarts it) - unat cur)"

lemma ParseNextKey_True:
  assumes "ParseNextKey it = Inr (True, it')"
  shows "\<exists>cur shared non_shared value_length rest.
      NextEntryOffset it = Inr cur \<and> cur < i_restarts it \<and>
      unat (i_restarts it) \<le> length (i_data it) \<and>
      DecodeEntry (drop (unat cur) (take (unat (i_restarts it)) (i_data it))) =
        Some (shared, non_shared, value_length, rest) \<and>
      unat shared \<le> length (i_key it) \<and>
      unat (i_restarts it) - length rest + unat non_shared \<le> length (i_data it) \<and>
      it' = it\<lparr>i_current := cur,
               i_key := take (unat shared) (i_key it) @
                        take (unat non_shared)
                          (drop (unat (i_restarts it) - length rest) (i_data it)),
               i_value := Slice (unat (i_restarts it) - length rest + unat non_shared)
                            (unat value_length),
               i_restart_index := i_restart_index it',
               i_restart_offset := i_restart_offset it'\<rparr>"
proof -
  from assms obtain cur where cur: "NextEntryOffset it = Inr cur"
    by (auto simp: ParseNextKey_def split: sum.splits)
  let ?it1 = "it\<lparr>i_current := cur, i_restart_offset := i_restart_offset it + 1\<rparr>"
  from assms cur have lt: "cur < i_restarts it"
    by (auto simp: ParseNextKey_def Let_def split: if_splits)
  from assms cur lt have inb: "unat (i_restarts it) \<le> length (i_data it)"
    by (auto simp: ParseNextKey_def Let_def split: if_splits)
  from assms cur lt inb obtain shared non_shared value_length rest where
    dec: "DecodeEntry (drop (unat cur) (take (unat (i_restarts it)) (i_data it))) =
        Some (shared, non_shared, value_length, rest)"
    by (auto simp: ParseNextKey_def Let_def split: if_splits option.splits)
  from assms cur lt inb dec have sh: "unat shared \<le> length (i_key it)"
    by (auto simp: ParseNextKey_def Let_def CorruptionError_def split: if_splits)
  let ?p = "unat (i_restarts it) - length rest"
  from assms cur lt inb dec sh have kb: "?p + unat non_shared \<le> length (i_data it)"
    by (auto simp: ParseNextKey_def Let_def split: if_splits)
  let ?it2 = "?it1\<lparr>i_key := take (unat shared) (i_key it) @
                        take (unat non_shared) (drop ?p (i_data it)),
                  i_value := Slice (?p + unat non_shared) (unat value_length)\<rparr>"
  from assms cur lt inb dec sh kb have "ParseNextKey_restarts ?it2 = Inr it'"
    by (auto simp: ParseNextKey_def Let_def split: if_splits sum.splits)
  from ParseNextKey_restarts_frame[OF this] have "it' = ?it2\<lparr>i_restart_index := i_restart_index it', i_restart_offset := i_restart_offset it'\<rparr>" .
  then have "it' = it\<lparr>i_current := cur,
               i_key := take (unat shared) (i_key it) @
                        take (unat non_shared) (drop ?p (i_data it)),
               i_value := Slice (?p + unat non_shared) (unat value_length),
               i_restart_index := i_restart_index it',
               i_restart_offset := i_restart_offset it'\<rparr>"
    by (cases it') auto
  with cur lt inb dec sh kb show ?thesis by blast
qed

lemma ParseNextKey_progress:
  assumes "ParseNextKey it = Inr (True, it')"
  shows "\<exists>cur cur'. NextEntryOffset it = Inr cur \<and> NextEntryOffset it' = Inr cur' \<and>
           cur < cur' \<and> cur' \<le> i_restarts it \<and> i_restarts it' = i_restarts it"
proof -
  from ParseNextKey_True[OF assms] obtain cur shared non_shared value_length rest where
    cur: "NextEntryOffset it = Inr cur" and lt: "cur < i_restarts it" and
    inb: "unat (i_restarts it) \<le> length (i_data it)" and
    dec: "DecodeEntry (drop (unat cur) (take (unat (i_restarts it)) (i_data it))) =
        Some (shared, non_shared, value_length, rest)" and
    it': "it' = it\<lparr>i_current := cur,
               i_key := take (unat shared) (i_key it) @
                        take (unat non_shared)
                          (drop (unat (i_restarts it) - length rest) (i_data it)),
               i_value := Slice (unat (i_restarts it) - length rest + unat non_shared)
                            (unat value_length),
               i_restart_index := i_restart_index it',
               i_restart_offset := i_restart_offset it'\<rparr>"
    by blast
  let ?R = "unat (i_restarts it)"
  let ?p = "?R - length rest"
  have ltn: "unat cur < ?R" using lt by (simp add: word_less_nat_alt)
  from DecodeEntry_Some[OF dec] obtain pre where
    pre: "drop (unat cur) (take ?R (i_data it)) = pre @ rest" and
    pre3: "3 \<le> length pre" and fits: "unat (non_shared + value_length) \<le> length rest"
    by blast
  have "length (drop (unat cur) (take ?R (i_data it))) = ?R - unat cur"
    using inb by simp
  with pre have len: "length pre + length rest = ?R - unat cur" by simp
  have Rlt: "?R < 2 ^ 32" using unsigned_less[of "i_restarts it"] by simp
  let ?end = "?p + unat (non_shared + value_length)"
  have end_le: "?end \<le> ?R" using fits len by simp
  have end_gt: "unat cur < ?end" using len pre3 ltn by simp
  have val: "i_value it' = Slice (?p + unat non_shared) (unat value_length)"
    by (subst it') simp
  have "(of_nat (?p + unat non_shared + unat value_length) :: u32) =
        of_nat ?p + (non_shared + value_length)"
    by simp
  also have "\<dots> = of_nat ?end"
    by simp
  finally have neo: "NextEntryOffset it' = Inr (of_nat ?end)"
    using val by (simp add: NextEntryOffset_def)
  have "?end < 2 ^ 32" using end_le Rlt by simp
  then have "?end mod 2 ^ 32 = ?end" by simp
  then have u: "unat (of_nat ?end :: u32) = ?end"
    by (simp only: unat_of_nat len_bit0 len_num1 mult_1_right) simp
  have "cur < (of_nat ?end :: u32)"
    using end_gt u by (simp add: word_less_nat_alt)
  moreover have "(of_nat ?end :: u32) \<le> i_restarts it"
    using end_le u by (simp add: word_le_nat_alt)
  moreover have "i_restarts it' = i_restarts it"
    by (subst it') simp
  ultimately show ?thesis using cur neo by blast
qed

lemma ParseNextKey_bytes_left:
  "ParseNextKey it = Inr (True, it') \<Longrightarrow> bytes_left it' < bytes_left it"
proof -
  assume "ParseNextKey it = Inr (True, it')"
  from ParseNextKey_progress[OF this] obtain cur cur' where
    "NextEntryOffset it = Inr cur" "NextEntryOffset it' = Inr cur'"
    "cur < cur'" "cur' \<le> i_restarts it" "i_restarts it' = i_restarts it"
    by blast
  then show ?thesis
    by (simp add: bytes_left_def word_less_nat_alt word_le_nat_alt)
qed

text \<open>\<^verbatim>\<open>Next\<close> (lines 150-153).\<close>

definition Next :: "Iter \<Rightarrow> fault + Iter" where
  "Next it =
     (if \<not> Valid it then Inl AssertionFailed
      else
        (case ParseNextKey it of
           Inl e \<Rightarrow> Inl e
         | Inr (ok, it') \<Rightarrow> Inr it'))"

text \<open>The first loop of \<^verbatim>\<open>Prev\<close> (lines 160-169); \<open>False\<close> is its early return.\<close>

function Prev_rewind :: "Iter \<Rightarrow> u32 \<Rightarrow> fault + (bool \<times> Iter)" where
  "Prev_rewind it original =
     (case GetRestartPoint it (i_restart_index it) of
        Inl e \<Rightarrow> Inl e
      | Inr offset \<Rightarrow>
          if original \<le> offset
          then
            if i_restart_index it = 0
            then Inr (False, it\<lparr>i_current := i_restarts it,
                                 i_restart_index := i_num_restarts it,
                                 i_restart_offset := 0\<rparr>)
            else Prev_rewind (it\<lparr>i_restart_index := i_restart_index it - 1\<rparr>) original
          else Inr (True, it))"
  by pat_completeness auto
termination
proof (relation "measure (\<lambda>(it, original). unat (i_restart_index it))")
  show "wf (measure (\<lambda>(it, original). unat (i_restart_index it)))"
    by simp
next
  fix it :: Iter and original offset :: u32
  assume "i_restart_index it \<noteq> 0"
  then have "unat (i_restart_index it - 1) < unat (i_restart_index it)"
    by (simp add: unat_minus_one unat_gt_0 word_neq_0_conv)
  then show "((it\<lparr>i_restart_index := i_restart_index it - 1\<rparr>, original), it, original)
      \<in> measure (\<lambda>(it, original). unat (i_restart_index it))"
    by simp
qed

declare Prev_rewind.simps [simp del]

text \<open>The second loop of \<^verbatim>\<open>Prev\<close> (lines 172-174).\<close>

function Prev_scan :: "Iter \<Rightarrow> u32 \<Rightarrow> fault + Iter" where
  "Prev_scan it original =
     (case ParseNextKey it of
        Inl e \<Rightarrow> Inl e
      | Inr (ok, it') \<Rightarrow>
          if \<not> ok then Inr it'
          else
            (case NextEntryOffset it' of
               Inl e \<Rightarrow> Inl e
             | Inr next_entry \<Rightarrow>
                 if next_entry < original then Prev_scan it' original else Inr it'))"
  by pat_completeness auto
termination
  by (relation "measure (\<lambda>(it, original). bytes_left it)")
     (auto dest: ParseNextKey_bytes_left)

declare Prev_scan.simps [simp del]

text \<open>\<^verbatim>\<open>Prev\<close> (lines 155-175).\<close>

definition Prev :: "Iter \<Rightarrow> fault + Iter" where
  "Prev it =
     (if \<not> Valid it then Inl AssertionFailed
      else
        let original = i_current it
        in
          (case Prev_rewind it original of
             Inl e \<Rightarrow> Inl e
           | Inr (found, it1) \<Rightarrow>
               if \<not> found then Inr it1
               else
                 (case SeekToRestartPoint it1 (i_restart_index it1) of
                    Inl e \<Rightarrow> Inl e
                  | Inr it2 \<Rightarrow> Prev_scan it2 original)))"

text \<open>
  The binary search of \<^verbatim>\<open>Seek\<close> (lines 180-203). It returns \<open>left\<close>, or nothing when it
  found a bad entry at a restart point, where \<^verbatim>\<open>Seek\<close> calls \<^verbatim>\<open>CorruptionError\<close> and
  returns. \<^verbatim>\<open>(left + right + 1) / 2\<close> is 32-bit arithmetic: a sum that wraps gives a
  \<open>mid\<close> below \<open>left\<close>, and the loop need not end, which is the result \<open>None\<close> of the
  function.
\<close>

partial_function (option) Seek_search ::
  "(bytes \<Rightarrow> bytes \<Rightarrow> int) \<Rightarrow> Iter \<Rightarrow> bytes \<Rightarrow> u32 \<Rightarrow> u32 \<Rightarrow> (fault + u32 option) option" where
  "Seek_search compare it target left right =
     (if left < right
      then
        let mid = (left + right + 1) div 2
        in
          (case GetRestartPoint it mid of
             Inl e \<Rightarrow> Some (Inl e)
           | Inr region_offset \<Rightarrow>
               if length (i_data it) < unat (i_restarts it) then Some (Inl OutOfBounds)
               else
                 (case DecodeEntry (drop (unat region_offset)
                                      (take (unat (i_restarts it)) (i_data it))) of
                    None \<Rightarrow> Some (Inr None)
                  | Some (shared, non_shared, value_length, rest) \<Rightarrow>
                      if shared \<noteq> 0 then Some (Inr None)
                      else
                        let key_ptr = unat (i_restarts it) - length rest
                        in
                          if length (i_data it) < key_ptr + unat non_shared
                          then Some (Inl OutOfBounds)
                          else
                            let mid_key = take (unat non_shared) (drop key_ptr (i_data it))
                            in
                              if compare mid_key target < 0
                              then Seek_search compare it target mid right
                              else Seek_search compare it target left (mid - 1)))
      else Some (Inr (Some left)))"

text \<open>The linear search of \<^verbatim>\<open>Seek\<close> (lines 207-214).\<close>

function Seek_scan :: "(bytes \<Rightarrow> bytes \<Rightarrow> int) \<Rightarrow> Iter \<Rightarrow> bytes \<Rightarrow> fault + Iter" where
  "Seek_scan compare it target =
     (case ParseNextKey it of
        Inl e \<Rightarrow> Inl e
      | Inr (ok, it') \<Rightarrow>
          if \<not> ok then Inr it'
          else if 0 \<le> compare (i_key it') target then Inr it'
          else Seek_scan compare it' target)"
  by pat_completeness auto
termination
  by (relation "measure (\<lambda>(compare, it, target). bytes_left it)")
     (auto dest: ParseNextKey_bytes_left)

declare Seek_scan.simps [simp del]

text \<open>\<^verbatim>\<open>Seek\<close> (lines 177-215).\<close>

definition Seek :: "(bytes \<Rightarrow> bytes \<Rightarrow> int) \<Rightarrow> Iter \<Rightarrow> bytes \<Rightarrow> (fault + Iter) option" where
  "Seek compare it target =
     (case Seek_search compare it target 0 (i_num_restarts it - 1) of
        None \<Rightarrow> None
      | Some (Inl e) \<Rightarrow> Some (Inl e)
      | Some (Inr None) \<Rightarrow> Some (Inr (CorruptionError it))
      | Some (Inr (Some left)) \<Rightarrow>
          (case SeekToRestartPoint it left of
             Inl e \<Rightarrow> Some (Inl e)
           | Inr it1 \<Rightarrow> Some (Seek_scan compare it1 target)))"

text \<open>\<^verbatim>\<open>SeekToFirst\<close> (lines 217-220).\<close>

definition SeekToFirst :: "Iter \<Rightarrow> fault + Iter" where
  "SeekToFirst it =
     (case SeekToRestartPoint it 0 of
        Inl e \<Rightarrow> Inl e
      | Inr it1 \<Rightarrow>
          (case ParseNextKey it1 of
             Inl e \<Rightarrow> Inl e
           | Inr (ok, it2) \<Rightarrow> Inr it2))"

text \<open>The loop of \<^verbatim>\<open>SeekToLast\<close> (lines 224-226).\<close>

function SeekToLast_scan :: "Iter \<Rightarrow> fault + Iter" where
  "SeekToLast_scan it =
     (case ParseNextKey it of
        Inl e \<Rightarrow> Inl e
      | Inr (ok, it') \<Rightarrow>
          if \<not> ok then Inr it'
          else
            (case NextEntryOffset it' of
               Inl e \<Rightarrow> Inl e
             | Inr next_entry \<Rightarrow>
                 if next_entry < i_restarts it' then SeekToLast_scan it' else Inr it'))"
  by pat_completeness auto
termination
  by (relation "measure bytes_left")
     (auto dest: ParseNextKey_bytes_left)

declare SeekToLast_scan.simps [simp del]

text \<open>\<^verbatim>\<open>SeekToLast\<close> (lines 222-227).\<close>

definition SeekToLast :: "Iter \<Rightarrow> fault + Iter" where
  "SeekToLast it =
     (case SeekToRestartPoint it (i_num_restarts it - 1) of
        Inl e \<Rightarrow> Inl e
      | Inr it1 \<Rightarrow> SeekToLast_scan it1)"

text \<open>
  The iterators \<^verbatim>\<open>NewIterator\<close> can return. Modelled from the spec:
  \<^verbatim>\<open>NewErrorIterator\<close> and \<^verbatim>\<open>NewEmptyIterator\<close> (\<^verbatim>\<open>table/iterator.cc\<close>) are not among
  the sources. The spec has the error iterator never valid with the status it was
  given, and the empty iterator never valid with status ok.
\<close>

datatype Iterator = ErrorIterator Status | EmptyIterator | BlockIterator Iter

text \<open>\<^verbatim>\<open>NewIterator\<close> (lines 324-334).\<close>

definition NewIterator :: "Block \<Rightarrow> fault + Iterator" where
  "NewIterator b =
     (if b_size b < 8 then Inr (ErrorIterator (Corruption ''bad block contents''))
      else
        (case NumRestarts b of
           Inl e \<Rightarrow> Inl e
         | Inr num_restarts \<Rightarrow>
             if num_restarts = 0 then Inr EmptyIterator
             else
               (case Iter_new (b_data b) (b_restart_offset b) num_restarts of
                  Inl e \<Rightarrow> Inl e
                | Inr it \<Rightarrow> Inr (BlockIterator it))))"

declare Seek_search.simps [code]

section \<open>Sequences of operations\<close>

text \<open>
  The positioning operations of the iterator as data, and a run of a list of them that
  stops at the first fault, as the process would. The result \<open>None\<close> is a run whose
  binary search does not return.
\<close>

datatype operation = OpSeekToFirst | OpSeekToLast | OpSeek bytes | OpNext | OpPrev

fun apply_operation ::
  "(bytes \<Rightarrow> bytes \<Rightarrow> int) \<Rightarrow> Iter \<Rightarrow> operation \<Rightarrow> (fault + Iter) option" where
  "apply_operation compare it OpSeekToFirst = Some (SeekToFirst it)"
| "apply_operation compare it OpSeekToLast = Some (SeekToLast it)"
| "apply_operation compare it (OpSeek target) = Seek compare it target"
| "apply_operation compare it OpNext = Some (Next it)"
| "apply_operation compare it OpPrev = Some (Prev it)"

fun run ::
  "(bytes \<Rightarrow> bytes \<Rightarrow> int) \<Rightarrow> Iter \<Rightarrow> operation list \<Rightarrow> (fault + Iter) option" where
  "run compare it [] = Some (Inr it)"
| "run compare it (op # ops) =
     (case apply_operation compare it op of
        None \<Rightarrow> None
      | Some (Inl e) \<Rightarrow> Some (Inl e)
      | Some (Inr it') \<Rightarrow> run compare it' ops)"

section \<open>Example blocks\<close>

text \<open>
  The comparator is an interface the block reader consumes. For the examples it is the
  bytewise order: the first differing byte decides, and a proper prefix is smaller.
\<close>

fun bytewise :: "bytes \<Rightarrow> bytes \<Rightarrow> int" where
  "bytewise [] [] = 0"
| "bytewise [] (b # bs) = - 1"
| "bytewise (a # as) [] = 1"
| "bytewise (a # as) (b # bs) =
     (if a < b then - 1 else if b < a then 1 else bytewise as bs)"

text \<open>
  Scenario S2 of the spec: the keys \<open>k01\<close>, \<open>k02\<close>, \<open>k03\<close>, \<open>k10\<close>, \<open>k11\<close>, each with
  the value \<open>v\<close>, and restart points at \<open>k01\<close> (offset 0) and \<open>k10\<close> (offset 17). The
  entries end at offset 29, where the restart array begins.
\<close>

definition block_S2 :: bytes where
  "block_S2 =
     [0, 3, 1, 107, 48, 49, 118,
      2, 1, 1, 50, 118,
      2, 1, 1, 51, 118,
      0, 3, 1, 107, 49, 48, 118,
      2, 1, 1, 49, 118,
      0, 0, 0, 0, 17, 0, 0, 0, 2, 0, 0, 0]"

text \<open>The iterator that \<^verbatim>\<open>NewIterator\<close> returns for it.\<close>

definition iter_S2 :: Iter where
  "iter_S2 =
     \<lparr>i_data = block_S2, i_restarts = 29, i_num_restarts = 2, i_current = 29,
      i_restart_index = 2, i_restart_offset = 0, i_key = [], i_value = EmptySlice,
      i_status = OK\<rparr>"

text \<open>
  Scenario S4 of the spec: the key \<open>abc\<close>, then an entry that claims to share 99 bytes
  with it; one restart point.
\<close>

definition block_S4 :: bytes where
  "block_S4 =
     [0, 3, 1, 97, 98, 99, 118,
      99, 1, 1, 120, 118,
      0, 0, 0, 0, 1, 0, 0, 0]"

definition iter_S4 :: Iter where
  "iter_S4 =
     \<lparr>i_data = block_S4, i_restarts = 12, i_num_restarts = 1, i_current = 12,
      i_restart_index = 1, i_restart_offset = 0, i_key = [], i_value = EmptySlice,
      i_status = OK\<rparr>"

text \<open>Opening a byte buffer: the constructor of \<^verbatim>\<open>Block\<close>, then \<^verbatim>\<open>NewIterator\<close>.\<close>

definition open_block :: "bytes \<Rightarrow> fault + Iterator" where
  "open_block contents =
     (case Block_new contents of
        Inl e \<Rightarrow> Inl e
      | Inr b \<Rightarrow> NewIterator b)"

section \<open>Well-formed blocks\<close>

text \<open>
  The entries a block holds, read off its bytes as section 3 of the spec lays them out:
  where an entry starts, how many bytes of the previous key it shares, its full key, and
  where its value lies.
\<close>

record entry =
  e_offset :: nat
  e_shared :: nat
  e_key :: bytes
  e_value_offset :: nat
  e_value_length :: nat

definition entry_end :: "entry \<Rightarrow> nat" where
  "entry_end e = e_value_offset e + e_value_length e"

text \<open>
  The entry at offset \<open>off\<close> of an entry region that ends at \<open>limit\<close>, after an entry
  with the key \<open>prev\<close>: its header decodes, it shares no more than \<open>prev\<close> has, and its
  key delta and value lie inside the region.
\<close>

definition entry_at :: "bytes \<Rightarrow> nat \<Rightarrow> nat \<Rightarrow> bytes \<Rightarrow> entry option" where
  "entry_at data limit off prev =
     (case DecodeEntry (drop off (take limit data)) of
        None \<Rightarrow> None
      | Some (shared, non_shared, value_length, rest) \<Rightarrow>
          if length prev < unat shared \<or> length rest < unat non_shared + unat value_length
          then None
          else
            let p = limit - length rest
            in Some \<lparr>e_offset = off, e_shared = unat shared,
                     e_key = take (unat shared) prev @ take (unat non_shared) (drop p data),
                     e_value_offset = p + unat non_shared,
                     e_value_length = unat value_length\<rparr>)"

lemma entry_at_Some:
  assumes "entry_at data limit off prev = Some e"
  shows "\<exists>shared non_shared value_length rest.
      DecodeEntry (drop off (take limit data)) = Some (shared, non_shared, value_length, rest) \<and>
      unat shared \<le> length prev \<and> unat non_shared + unat value_length \<le> length rest \<and>
      e = \<lparr>e_offset = off, e_shared = unat shared,
           e_key = take (unat shared) prev @
                   take (unat non_shared) (drop (limit - length rest) data),
           e_value_offset = limit - length rest + unat non_shared,
           e_value_length = unat value_length\<rparr>"
  using assms
  by (auto simp: entry_at_def Let_def split: option.splits if_splits)

lemma entry_at_bounds:
  assumes "entry_at data limit off prev = Some e"
  shows "e_offset e = off \<and> off + 3 \<le> e_value_offset e \<and> entry_end e \<le> limit \<and> off < limit"
proof -
  from entry_at_Some[OF assms] obtain shared non_shared value_length rest where
    dec: "DecodeEntry (drop off (take limit data)) = Some (shared, non_shared, value_length, rest)"
    and fits: "unat non_shared + unat value_length \<le> length rest"
    and e: "e = \<lparr>e_offset = off, e_shared = unat shared,
           e_key = take (unat shared) prev @
                   take (unat non_shared) (drop (limit - length rest) data),
           e_value_offset = limit - length rest + unat non_shared,
           e_value_length = unat value_length\<rparr>"
    by blast
  from DecodeEntry_Some[OF dec] obtain pre where
    pre: "drop off (take limit data) = pre @ rest" and pre3: "3 \<le> length pre"
    by blast
  have "length (drop off (take limit data)) \<le> limit - off" by simp
  with pre have len: "length pre + length rest \<le> limit - off" by simp
  with pre3 have "off + 3 \<le> limit - length rest" and "length rest \<le> limit" and "off < limit"
    by simp_all
  moreover have "e_offset e = off"
    and "e_value_offset e = limit - length rest + unat non_shared"
    and "e_value_length e = unat value_length"
    by (simp_all add: e)
  ultimately show ?thesis using fits unfolding entry_end_def by linarith
qed

text \<open>
  All the entries from offset \<open>off\<close> on: they follow each other without a gap and the
  last one ends at \<open>limit\<close>.
\<close>

function entries_from :: "bytes \<Rightarrow> nat \<Rightarrow> nat \<Rightarrow> bytes \<Rightarrow> entry list option" where
  "entries_from data limit off prev =
     (if limit \<le> off then (if off = limit then Some [] else None)
      else
        (case entry_at data limit off prev of
           None \<Rightarrow> None
         | Some e \<Rightarrow>
             (case entries_from data limit (entry_end e) (e_key e) of
                None \<Rightarrow> None
              | Some es \<Rightarrow> Some (e # es))))"
  by pat_completeness auto
termination
proof (relation "measure (\<lambda>(data, limit, off, prev). limit - off)")
  show "wf (measure (\<lambda>(data, limit, off, prev). limit - off))"
    by simp
next
  fix data :: bytes and limit off :: nat and prev :: bytes and e :: entry
  assume "\<not> limit \<le> off" and "entry_at data limit off prev = Some e"
  from entry_at_bounds[OF this(2)] have "off < entry_end e"
    by (simp add: entry_end_def)
  with \<open>\<not> limit \<le> off\<close>
  show "((data, limit, entry_end e, e_key e), data, limit, off, prev)
      \<in> measure (\<lambda>(data, limit, off, prev). limit - off)"
    by simp
qed

declare entries_from.simps [simp del]

text \<open>
  The trailer of a block: the number of restart points, where their array begins, and the
  points.
\<close>

definition block_num_restarts :: "bytes \<Rightarrow> nat" where
  "block_num_restarts data = unat (DecodeFixed32 (take 4 (drop (length data - 4) data)))"

definition block_restarts :: "bytes \<Rightarrow> nat" where
  "block_restarts data = length data - 4 * (block_num_restarts data + 1)"

definition restart_point :: "bytes \<Rightarrow> nat \<Rightarrow> nat" where
  "restart_point data j =
     unat (DecodeFixed32 (take 4 (drop (block_restarts data + 4 * j) data)))"

definition block_entries :: "bytes \<Rightarrow> entry list option" where
  "block_entries data = entries_from data (block_restarts data) 0 []"

text \<open>
  A well-formed block (section 3 of the spec): at least 8 and less than \<open>2^32\<close> bytes; a
  trailer that fits; an entry region that is a sequence of entries; restart points that
  increase strictly from 0, each the offset of an entry that shares nothing with the key
  before it.
\<close>

definition well_formed :: "bytes \<Rightarrow> bool" where
  "well_formed data \<longleftrightarrow>
     8 \<le> length data \<and> length data < 2 ^ 32 \<and>
     1 \<le> block_num_restarts data \<and> 4 * (block_num_restarts data + 1) \<le> length data \<and>
     restart_point data 0 = 0 \<and>
     sorted_wrt (<) (map (restart_point data) [0..<block_num_restarts data]) \<and>
     (case block_entries data of
        None \<Rightarrow> False
      | Some es \<Rightarrow>
          list_all
            (\<lambda>j. list_ex (\<lambda>e. e_offset e = restart_point data j \<and> e_shared e = 0) es)
            [0..<block_num_restarts data])"

text \<open>The keys of a block do not decrease under the comparator.\<close>

definition sorted_block :: "(bytes \<Rightarrow> bytes \<Rightarrow> int) \<Rightarrow> bytes \<Rightarrow> bool" where
  "sorted_block compare data \<longleftrightarrow>
     (case block_entries data of
        None \<Rightarrow> False
      | Some es \<Rightarrow> sorted_wrt (\<lambda>a b. compare a b \<le> 0) (map e_key es))"

text \<open>
  A comparator is a total order: swapping the arguments swaps the sign, and \<open>\<le>\<close> is
  transitive.
\<close>

definition total_order :: "(bytes \<Rightarrow> bytes \<Rightarrow> int) \<Rightarrow> bool" where
  "total_order compare \<longleftrightarrow>
     (\<forall>a b. (compare a b < 0) = (0 < compare b a)) \<and>
     (\<forall>a b c. compare a b \<le> 0 \<longrightarrow> compare b c \<le> 0 \<longrightarrow> compare a c \<le> 0)"

text \<open>An iterator over a block, in whatever state: what \<^verbatim>\<open>NewIterator\<close> fixes of it.\<close>

definition iterates :: "bytes \<Rightarrow> Iter \<Rightarrow> bool" where
  "iterates data it \<longleftrightarrow>
     i_data it = data \<and> i_restarts it = of_nat (block_restarts data) \<and>
     i_num_restarts it = of_nat (block_num_restarts data)"

text \<open>An iterator positioned on an entry: offset, key and value are the entry's.\<close>

definition positioned :: "Iter \<Rightarrow> entry \<Rightarrow> bool" where
  "positioned it e \<longleftrightarrow>
     i_current it = of_nat (e_offset e) \<and> i_key it = e_key e \<and>
     i_value it = Slice (e_value_offset e) (e_value_length e)"

text \<open>The entries from an offset on, as a relation between the offset and the list.\<close>

fun chain :: "bytes \<Rightarrow> nat \<Rightarrow> nat \<Rightarrow> bytes \<Rightarrow> entry list \<Rightarrow> bool" where
  "chain data limit off prev [] \<longleftrightarrow> off = limit"
| "chain data limit off prev (e # es) \<longleftrightarrow>
     entry_at data limit off prev = Some e \<and> chain data limit (entry_end e) (e_key e) es"


text \<open>The key stored in full at a restart point.\<close>

definition restart_key :: "bytes \<Rightarrow> nat \<Rightarrow> bytes" where
  "restart_key data j =
     (case entry_at data (block_restarts data) (restart_point data j) [] of
        None \<Rightarrow> []
      | Some e \<Rightarrow> e_key e)"


text \<open>The entries of the block of scenario S2.\<close>

definition entries_S2 :: "entry list" where
  "entries_S2 =
     [\<lparr>e_offset = 0, e_shared = 0, e_key = [107, 48, 49], e_value_offset = 6,
       e_value_length = 1\<rparr>,
      \<lparr>e_offset = 7, e_shared = 2, e_key = [107, 48, 50], e_value_offset = 11,
       e_value_length = 1\<rparr>,
      \<lparr>e_offset = 12, e_shared = 2, e_key = [107, 48, 51], e_value_offset = 16,
       e_value_length = 1\<rparr>,
      \<lparr>e_offset = 17, e_shared = 0, e_key = [107, 49, 48], e_value_offset = 23,
       e_value_length = 1\<rparr>,
      \<lparr>e_offset = 24, e_shared = 2, e_key = [107, 49, 49], e_value_offset = 28,
       e_value_length = 1\<rparr>]"


text \<open>
  The state \<^verbatim>\<open>CorruptionError\<close> leaves (lines 232-239): the iterator is not valid, key
  and value are cleared, and the status is the one corruption status of the block
  iterator.
\<close>

definition corrupted :: "Iter \<Rightarrow> bool" where
  "corrupted it \<longleftrightarrow>
     \<not> Valid it \<and> i_key it = [] \<and> i_value it = EmptySlice \<and>
     i_status it = Corruption ''bad entry in block''"

text \<open>
  The entry that follows the current one is bad, as \<^verbatim>\<open>ParseNextKey\<close> tests it (lines
  246-260): it begins before the restart array, and \<^verbatim>\<open>DecodeEntry\<close> returns no header
  for it, or the header shares more bytes than the current key has.
\<close>

definition bad_next :: "Iter \<Rightarrow> bool" where
  "bad_next it \<longleftrightarrow>
     (case NextEntryOffset it of
        Inl e \<Rightarrow> False
      | Inr cur \<Rightarrow>
          cur < i_restarts it \<and> unat (i_restarts it) \<le> length (i_data it) \<and>
          (case DecodeEntry (drop (unat cur) (take (unat (i_restarts it)) (i_data it))) of
             None \<Rightarrow> True
           | Some (shared, non_shared, value_length, rest) \<Rightarrow>
               length (i_key it) < unat shared))"


text \<open>
  An iterator on an entry of the block: positioned on one of its entries, with a restart
  index that is one of the block's.
\<close>

definition on_entry :: "bytes \<Rightarrow> Iter \<Rightarrow> bool" where
  "on_entry data it \<longleftrightarrow>
     (case block_entries data of
        None \<Rightarrow> False
      | Some es \<Rightarrow> list_ex (positioned it) es) \<and>
     i_restart_index it < i_num_restarts it"


text \<open>
  The states of an iterator over a block that the operations keep to: whenever it is
  valid, it is on an entry.
\<close>

definition consistent :: "bytes \<Rightarrow> Iter \<Rightarrow> bool" where
  "consistent data it \<longleftrightarrow> iterates data it \<and> (Valid it \<longrightarrow> on_entry data it)"


section \<open>The codecs invert each other\<close>

lemma n127: "(127::'a::len word) = mask 7"
  by (simp add: mask_eq_exp_minus_1)

lemma bit128: "bit (128::int) n \<longleftrightarrow> n = 7"
proof -
  have "bit (2 ^ 7 :: int) n \<longleftrightarrow> n = 7"
    by (simp only: bit_exp_iff) auto
  then show ?thesis by simp
qed

lemma low7: "(ucast (ucast (v::u32) OR (128::byte)) :: u32) AND 127 = v AND 127"
  unfolding n127
  by (rule bit_word_eqI) (auto simp: bit_simps bit128)

lemma hi_set: "(ucast (ucast (v::u32) OR (128::byte)) :: u32) AND 128 \<noteq> 0"
proof -
  have "bit ((ucast (ucast (v::u32) OR (128::byte)) :: u32) AND 128) 7"
    by (simp add: bit_simps bit128)
  then show ?thesis by auto
qed

lemma small_bits: "(v::u32) < 128 \<Longrightarrow> bit v n \<Longrightarrow> n < 7"
proof -
  assume "v < 128" and bv: "bit v n"
  then have "v < 2 ^ 7" by simp
  then have "take_bit 7 v = v"
    by (simp add: less_mask_eq take_bit_eq_mask)
  then show "n < 7" using bv
    by (metis bit_take_bit_iff)
qed

lemma small_byte: "v < 128 \<Longrightarrow> (ucast (ucast (v::u32) :: byte) :: u32) = v"
  by (rule bit_word_eqI) (auto simp: bit_simps dest: small_bits)

lemma small_hi: "v < 128 \<Longrightarrow> (v::u32) AND 128 = 0"
  by (rule bit_word_eqI) (auto simp: bit_simps bit128 dest: small_bits)

lemma split7:
  "((r::u32) OR push_bit s (v AND 127)) OR push_bit (s + 7) (drop_bit 7 v) = r OR push_bit s v"
  unfolding n127
proof (rule bit_word_eqI)
  fix n assume "n < LENGTH(32)"
  have *: "s + 7 \<le> n \<Longrightarrow> 7 + (n - (s + 7)) = n - s" by simp
  show "bit ((r OR push_bit s (v AND mask 7)) OR push_bit (s + 7) (drop_bit 7 v)) n =
        bit (r OR push_bit s v) n"
    using * by (cases "s + 7 \<le> n") (auto simp: bit_simps)
qed

lemma varint_last_byte:
  assumes "v < 128" "shift \<le> 28"
  shows "GetVarint32Ptr_loop shift r (ucast v # rest) = Some (r OR push_bit shift v, rest)"
proof -
  have a: "(ucast (ucast v :: byte) :: u32) = v" using assms(1) by (rule small_byte)
  have b: "v AND 128 = 0" using assms(1) by (rule small_hi)
  show ?thesis using assms(2)
    by (simp only: GetVarint32Ptr_loop.simps Let_def a b) simp
qed

lemma varint_more_bytes:
  assumes "shift \<le> 28"
  shows "GetVarint32Ptr_loop shift r ((ucast (v::u32) OR 128) # bs) =
      GetVarint32Ptr_loop (shift + 7) (r OR push_bit shift (v AND 127)) bs"
  using assms
  by (simp only: GetVarint32Ptr_loop.simps Let_def low7 hi_set) simp

text \<open>
  The decoder, started at byte \<open>k\<close> of a number, reads back what the encoder wrote,
  provided the value still fits the \<open>5 - k\<close> bytes that are left.
\<close>

lemma varint_roundtrip_from:
  "k \<le> 4 \<Longrightarrow> unat v < 2 ^ (7 * (5 - k)) \<Longrightarrow>
   GetVarint32Ptr_loop (7 * k) r (EncodeVarint32 v @ rest) =
     Some (r OR push_bit (7 * k) v, rest)"
proof (induction v arbitrary: k r rule: EncodeVarint32.induct)
  case (1 v)
  show ?case
  proof (cases "v < 128")
    case True
    have e: "EncodeVarint32 v = [ucast v]"
      using True by (subst EncodeVarint32.simps) simp
    have "7 * k \<le> 28" using "1.prems"(1) by simp
    from varint_last_byte[OF True this] show ?thesis
      by (simp only: e append_Cons append_Nil)
  next
    case False
    then have "128 \<le> unat v" by (simp add: word_less_nat_alt)
    with "1.prems" have "(2::nat) ^ 7 < 2 ^ (7 * (5 - k))" by simp
    then have "7 < 7 * (5 - k)" by (simp only: power_strict_increasing_iff)
    then have k3: "k \<le> 3" by simp
    have "unat (drop_bit 7 v) = unat v div 2 ^ 7"
      by (simp add: drop_bit_eq_div unat_div)
    also have "\<dots> < 2 ^ (7 * (5 - Suc k))"
    proof -
      have "7 * (5 - k) = 7 + 7 * (5 - Suc k)" using k3 by simp
      then have "unat v < 2 ^ 7 * 2 ^ (7 * (5 - Suc k))"
        using "1.prems"(2) by (simp add: power_add)
      then show ?thesis by (simp add: less_mult_imp_div_less mult.commute)
    qed
    finally have small: "unat (drop_bit 7 v) < 2 ^ (7 * (5 - Suc k))" .
    have IH: "GetVarint32Ptr_loop (7 * Suc k) r' (EncodeVarint32 (drop_bit 7 v) @ rest)
        = Some (r' OR push_bit (7 * Suc k) (drop_bit 7 v), rest)" for r'
      using "1.IH"[OF False, of "Suc k" r'] k3 small by simp
    have s: "7 * Suc k = 7 * k + 7" by simp
    have k28: "7 * k \<le> 28" using k3 by simp
    have e: "EncodeVarint32 v = (ucast v OR 128) # EncodeVarint32 (drop_bit 7 v)"
      using False by (subst EncodeVarint32.simps) (simp only: if_False)
    show ?thesis
      by (simp only: e append_Cons varint_more_bytes[OF k28] IH[unfolded s] split7)
  qed
qed

lemma GetVarint32_EncodeVarint32: "GetVarint32 (EncodeVarint32 v @ rest) = Some (v, rest)"
proof -
  have "unat v < 2 ^ 32" using unsigned_less[of v] by simp
  then have "unat v < 2 ^ (7 * (5 - 0))" by simp
  from varint_roundtrip_from[where k=0 and r=0 and rest=rest, OF _ this] show ?thesis
    by (simp add: GetVarint32_def GetVarint32Ptr_def)
qed

lemma fixed64_low_byte:
  "ucast (ucast (drop_bit k (v::u64)) :: byte) OR push_bit 8 (drop_bit (k + 8) v) =
   drop_bit k v"
proof (rule bit_word_eqI)
  fix n assume n: "n < LENGTH(64)"
  have *: "8 \<le> n \<Longrightarrow> k + 8 + (n - 8) = k + n" by simp
  show "bit (ucast (ucast (drop_bit k v) :: byte) OR push_bit 8 (drop_bit (k + 8) v)) n =
        bit (drop_bit k v) n"
    using * n by (cases "8 \<le> n") (auto simp: bit_simps)
qed

lemmas fixed64_bytes =
  fixed64_low_byte[of 0, simplified] fixed64_low_byte[of 8, simplified]
  fixed64_low_byte[of 16, simplified] fixed64_low_byte[of 24, simplified]
  fixed64_low_byte[of 32, simplified] fixed64_low_byte[of 40, simplified]
  fixed64_low_byte[of 48, simplified]

lemma fixed64_high_byte: "(ucast (ucast (drop_bit 56 (v::u64)) :: byte) :: u64) = drop_bit 56 v"
proof (rule bit_word_eqI)
  fix n assume "n < LENGTH(64)"
  have "bit v (56 + n) \<Longrightarrow> n < 8"
    using bit_imp_le_length[of v "56 + n"] by simp
  then show "bit (ucast (ucast (drop_bit 56 v) :: byte) :: u64) n = bit (drop_bit 56 v) n"
    by (auto simp: bit_simps)
qed

lemma DecodeFixed64_EncodeFixed64: "DecodeFixed64 (EncodeFixed64 v) = v"
  by (simp only: DecodeFixed64_def EncodeFixed64_def foldr.simps o_apply id_apply
      push_bit_of_0 or.right_neutral fixed64_high_byte fixed64_bytes)

lemma length_EncodeFixed64: "length (EncodeFixed64 v) = 8"
  by (simp add: EncodeFixed64_def)

section \<open>The stored form of a BlockMetrics\<close>

lemma GetDBKey_bytes:
  "GetDBKey m =
     EncodeFixed64 (bm_file_number m) @ EncodeFixed64 (ucast (bm_bytes_per_restart m))"
  by (simp add: GetDBKey_def PutFixed64_def)

lemma Create_kv_GetDBKey:
  "Create_kv (GetDBKey m) v = Create (bm_file_number m) (ucast (bm_bytes_per_restart m)) v"
  by (simp add: Create_kv_def GetDBKey_bytes length_EncodeFixed64 DecodeFixed64_EncodeFixed64)

text \<open>
  C3. \<^verbatim>\<open>GetDBKey\<close> is to return the little-endian \<open>file_number\<close> followed by the
  little-endian \<open>block_offset\<close>, 16 bytes. For the metrics of file 7 at block offset 4096
  with two bytes per restart the code returns 16 bytes whose second half encodes 2, the
  \<open>bytes_per_restart\<close>, where the claim has the encoding of 4096: the claim does not hold
  of the code.
\<close>

theorem GetDBKey_drops_block_offset:
  "GetDBKey metrics_S6 = [7, 0, 0, 0, 0, 0, 0, 0, 2, 0, 0, 0, 0, 0, 0, 0] \<and>
   EncodeFixed64 (bm_file_number metrics_S6) @ EncodeFixed64 (bm_block_offset metrics_S6) =
     [7, 0, 0, 0, 0, 0, 0, 0, 0, 16, 0, 0, 0, 0, 0, 0]"
  by (simp add: GetDBKey_def metrics_S6_def PutFixed64_def EncodeFixed64_def)

text \<open>
  C4. \<^verbatim>\<open>Create(file_number, block_offset, db_value)\<close> is to return NULL whenever the
  bytes after the two varints are not \<open>num_restarts * bytes_per_restart\<close> many. On the
  value \<open>[1, 1]\<close> (one restart, one byte per restart, no bitmap byte) and on
  \<open>[1, 1, 0, 0]\<close> (one bitmap byte too many) the code does not return NULL: it calls the
  constructor, whose assertion on the length fails.
\<close>

theorem Create_length_mismatch_not_null:
  "Create 7 4096 [1, 1] = Inl AssertionFailed \<and>
   Create 7 4096 [1, 1, 0, 0] = Inl AssertionFailed"
  by (simp add: Create_def GetVarint32_def GetVarint32Ptr_def BlockMetrics_from_data_def)

text \<open>
  C5. Round trip: for every BlockMetrics \<open>m\<close> (its bitmap has the size the constructors
  give it), \<^verbatim>\<open>GetDBValue\<close> returns the two varints followed by the bitmap, and
  \<^verbatim>\<open>Create(m.GetDBKey(), m.GetDBValue())\<close> returns a metrics object, not NULL, with the
  bitmap, the \<open>num_restarts\<close>, the \<open>bytes_per_restart\<close> (and the \<open>file_number\<close>) of
  \<open>m\<close>. Its \<open>block_offset\<close> is the \<open>bytes_per_restart\<close> of \<open>m\<close>, the field the key
  holds in its place.
\<close>

theorem metrics_roundtrip:
  assumes "length (bm_metrics m) = metrics_size m"
  shows "GetDBValue m =
           Inr (EncodeVarint32 (bm_num_restarts m) @ EncodeVarint32 (bm_bytes_per_restart m) @
                bm_metrics m) \<and>
         Create_kv (GetDBKey m)
           (EncodeVarint32 (bm_num_restarts m) @ EncodeVarint32 (bm_bytes_per_restart m) @
            bm_metrics m) =
           Inr (Some (m\<lparr>bm_block_offset := ucast (bm_bytes_per_restart m)\<rparr>))"
proof
  show "GetDBValue m =
           Inr (EncodeVarint32 (bm_num_restarts m) @ EncodeVarint32 (bm_bytes_per_restart m) @
                bm_metrics m)"
    using assms by (simp add: GetDBValue_def PutVarint32_def)
  show "Create_kv (GetDBKey m)
           (EncodeVarint32 (bm_num_restarts m) @ EncodeVarint32 (bm_bytes_per_restart m) @
            bm_metrics m) =
         Inr (Some (m\<lparr>bm_block_offset := ucast (bm_bytes_per_restart m)\<rparr>))"
    using assms
    by (simp add: Create_kv_GetDBKey Create_def GetVarint32_EncodeVarint32
        BlockMetrics_from_data_def metrics_size_def)
qed

theorem metrics_roundtrip_witness:
  "length (bm_metrics metrics_S6) = metrics_size metrics_S6 \<and>
   GetDBValue metrics_S6 = Inr [3, 2, 8, 0, 128, 0, 0, 0] \<and>
   Create_kv (GetDBKey metrics_S6) [3, 2, 8, 0, 128, 0, 0, 0] =
     Inr (Some (metrics_S6\<lparr>bm_block_offset := 2\<rparr>))"
proof -
  have h: "length (bm_metrics metrics_S6) = metrics_size metrics_S6"
    by (simp add: metrics_S6_def metrics_size_def)
  have e: "EncodeVarint32 3 = [3]" "EncodeVarint32 2 = [2]"
    by (simp_all add: EncodeVarint32.simps)
  from metrics_roundtrip[OF h] h e show ?thesis
    by (simp add: metrics_S6_def)
qed

section \<open>Recording and querying accesses\<close>

lemma bit_set_test: "k < 8 \<Longrightarrow> ((x::byte) OR push_bit k 1) AND push_bit k 1 \<noteq> 0"
proof -
  assume k: "k < 8"
  then have "bit (push_bit k (1::byte)) k"
    by (simp only: bit_push_bit_iff possible_bit_word) simp
  then have "bit ((x OR push_bit k 1) AND push_bit k 1) k"
    by (simp only: bit_and_iff bit_or_iff) simp
  then show ?thesis using k by auto
qed

lemma word_mod_mod: "(s::u32) mod w mod w = s mod w"
  by (simp add: word_unat_eq_iff unat_mod)

lemma bitIdx_bound:
  assumes "bm_bytes_per_restart m * 8 \<noteq> 0"
  shows "\<exists>bi. bitIdx m s = Inr bi \<and> bi div 8 < unat (bm_bytes_per_restart m)"
proof -
  let ?w = "bm_bytes_per_restart m * 8"
  have "0 < ?w" using assms by (simp add: word_greater_zero_iff)
  then have "s mod ?w < ?w" by (rule word_mod_less_divisor)
  then have "unat (s mod ?w) < unat ?w" by (simp add: word_less_nat_alt)
  also have "unat ?w \<le> unat (bm_bytes_per_restart m) * 8"
    by (simp add: unat_word_ariths)
  finally have "unat (s mod ?w) div 8 < unat (bm_bytes_per_restart m)" by simp
  then show ?thesis using assms by (simp add: bitIdx_def)
qed

lemma byte_index_bound:
  assumes "bi div 8 < unat p" and "r < n"
  shows "unat (r * p) + bi div 8 < unat n * unat (p::u32)"
proof -
  have "unat (r * p) \<le> unat r * unat p" by (simp add: unat_word_ariths)
  moreover have "Suc (unat r) \<le> unat n" using assms(2) by (simp add: word_less_nat_alt)
  then have "Suc (unat r) * unat p \<le> unat n * unat p" by (rule mult_le_mono1)
  ultimately show ?thesis using assms(1) by simp
qed

text \<open>
  C8, as the claim states it, fails: it takes every BlockMetrics and every
  \<open>r < num_restarts\<close>. Metrics with \<open>bytes_per_restart = 0\<close> are what \<^verbatim>\<open>Create\<close> returns
  for the stored value \<open>[1, 0]\<close>, and there \<^verbatim>\<open>RecordAccess(0, 0)\<close> divides by zero. With
  65537 restarts of 65536 bytes the 32-bit product that sizes the bitmap wraps to 65536
  bytes, and \<^verbatim>\<open>RecordAccess(1, 0)\<close> writes at byte 65536, outside of it.
\<close>

theorem RecordAccess_faults:
  "Create 7 4096 [1, 0] = Inr (Some (BlockMetrics_new 7 4096 1 0)) \<and>
   RecordAccess (BlockMetrics_new 7 4096 1 0) 0 0 = Inl DivisionByZero \<and>
   RecordAccess (BlockMetrics_new 7 4096 65537 65536) 1 0 = Inl OutOfBounds"
  by (simp add: Create_def GetVarint32_def GetVarint32Ptr_def BlockMetrics_from_data_def
      RecordAccess_def bitIdx_def BlockMetrics_new_def)

text \<open>
  C8, amended: for every BlockMetrics whose bitmap has \<open>num_restarts * bytes_per_restart\<close>
  bytes (the product taken without overflow) and whose window \<open>bytes_per_restart * 8\<close> is
  not zero in 32-bit arithmetic, for every \<open>r < num_restarts\<close> and every \<open>s\<close>:
  \<^verbatim>\<open>RecordAccess(r, s)\<close> succeeds and \<^verbatim>\<open>IsHot(r, s)\<close> is true afterwards; and
  \<^verbatim>\<open>IsHot(r, s)\<close> is \<^verbatim>\<open>IsHot(r, s mod (bytes_per_restart * 8))\<close>.
\<close>

theorem record_then_hot:
  assumes size: "length (bm_metrics m) = unat (bm_num_restarts m) * unat (bm_bytes_per_restart m)"
    and window: "bm_bytes_per_restart m * 8 \<noteq> 0"
    and r: "r < bm_num_restarts m"
  shows "(\<exists>m'. RecordAccess m r s = Inr m' \<and> IsHot m' r s = Inr True) \<and>
         IsHot m r s = IsHot m r (s mod (bm_bytes_per_restart m * 8))"
proof
  from bitIdx_bound[OF window] obtain bi where
    bi: "bitIdx m s = Inr bi" and small: "bi div 8 < unat (bm_bytes_per_restart m)" by blast
  let ?by = "unat (r * bm_bytes_per_restart m) + bi div 8"
  have inside: "?by < length (bm_metrics m)"
    using byte_index_bound[OF small r] size by simp
  let ?m' = "m\<lparr>bm_metrics :=
                 (bm_metrics m)[?by := (bm_metrics m ! ?by) OR push_bit (bi mod 8) 1]\<rparr>"
  have rec: "RecordAccess m r s = Inr ?m'"
    using bi inside by (simp add: RecordAccess_def Let_def)
  have "bitIdx ?m' s = Inr bi" using bi by (simp add: bitIdx_def split: if_splits)
  then have "IsHot ?m' r s = Inr True"
    using inside bit_set_test[of "bi mod 8" "bm_metrics m ! ?by"]
    by (simp add: IsHot_def Let_def)
  with rec show "\<exists>m'. RecordAccess m r s = Inr m' \<and> IsHot m' r s = Inr True" by blast
  show "IsHot m r s = IsHot m r (s mod (bm_bytes_per_restart m * 8))"
    by (simp add: IsHot_def bitIdx_def word_mod_mod)
qed

text \<open>Scenario S5: slot 16 of region 0 folds onto bit 0.\<close>

theorem record_then_hot_witness:
  "length (bm_metrics metrics_S6) =
     unat (bm_num_restarts metrics_S6) * unat (bm_bytes_per_restart metrics_S6) \<and>
   bm_bytes_per_restart metrics_S6 * 8 \<noteq> 0 \<and> 0 < bm_num_restarts metrics_S6 \<and>
   RecordAccess metrics_S6 0 16 = Inr (metrics_S6\<lparr>bm_metrics := [9, 0, 128, 0, 0, 0]\<rparr>) \<and>
   IsHot (metrics_S6\<lparr>bm_metrics := [9, 0, 128, 0, 0, 0]\<rparr>) 0 16 = Inr True \<and>
   IsHot metrics_S6 0 16 = IsHot metrics_S6 0 0"
proof -
  have h1: "length (bm_metrics metrics_S6) =
      unat (bm_num_restarts metrics_S6) * unat (bm_bytes_per_restart metrics_S6)"
    by (simp add: metrics_S6_def)
  have h2: "bm_bytes_per_restart metrics_S6 * 8 \<noteq> 0"
    by (simp add: metrics_S6_def)
  have h3: "0 < bm_num_restarts metrics_S6"
    by (simp add: metrics_S6_def)
  have rec: "RecordAccess metrics_S6 0 16 = Inr (metrics_S6\<lparr>bm_metrics := [9, 0, 128, 0, 0, 0]\<rparr>)"
    by (simp add: RecordAccess_def bitIdx_def metrics_S6_def)
  from record_then_hot[OF h1 h2 h3, of 16] h1 h2 h3 rec show ?thesis
    by (simp add: metrics_S6_def)
qed

text \<open>
  C10, as the claim states it, fails: \<open>bytes_per_restart \<ge> 1\<close> does not keep the window
  \<open>bytes_per_restart * 8\<close> from being zero in the 32-bit arithmetic of the code. With one
  restart of \<open>2^29\<close> bytes the bitmap has exactly \<open>num_restarts * bytes_per_restart\<close>
  bytes, \<open>0 < num_restarts\<close>, and the byte index of \<open>(0, 0)\<close> is not computed: the code
  divides by zero.
\<close>

theorem byteIdx_window_wraps:
  "1 \<le> bm_bytes_per_restart (BlockMetrics_new 7 4096 1 0x20000000) \<and>
   length (bm_metrics (BlockMetrics_new 7 4096 1 0x20000000)) =
     unat (bm_num_restarts (BlockMetrics_new 7 4096 1 0x20000000)) *
     unat (bm_bytes_per_restart (BlockMetrics_new 7 4096 1 0x20000000)) \<and>
   0 < bm_num_restarts (BlockMetrics_new 7 4096 1 0x20000000) \<and>
   byteIdx (BlockMetrics_new 7 4096 1 0x20000000) 0 0 = Inl DivisionByZero \<and>
   RecordAccess (BlockMetrics_new 7 4096 1 0x20000000) 0 0 = Inl DivisionByZero \<and>
   IsHot (BlockMetrics_new 7 4096 1 0x20000000) 0 0 = Inl DivisionByZero"
  by (simp add: byteIdx_def RecordAccess_def IsHot_def bitIdx_def BlockMetrics_new_def)

text \<open>
  C10, amended: for every BlockMetrics with \<open>bytes_per_restart \<ge> 1\<close>, a window
  \<open>bytes_per_restart * 8\<close> that is not zero in 32-bit arithmetic (every
  \<open>bytes_per_restart\<close> from 1 to \<open>2^29 - 1\<close> has one) and a bitmap of exactly
  \<open>num_restarts * bytes_per_restart\<close> bytes, for every \<open>r < num_restarts\<close> and every
  \<open>s\<close>: the byte index that \<^verbatim>\<open>RecordAccess\<close> and \<^verbatim>\<open>IsHot\<close> compute is less than the
  size of the bitmap, and both run without a fault. The bound on \<open>r\<close> is needed: the
  metrics of one restart and two bytes per restart give \<open>(1, 0)\<close> the byte index 2, the
  size of the bitmap, and neither function checks it.
\<close>

theorem byte_index_inside:
  assumes bpr: "1 \<le> bm_bytes_per_restart m"
    and window: "bm_bytes_per_restart m * 8 \<noteq> 0"
    and size: "length (bm_metrics m) = unat (bm_num_restarts m) * unat (bm_bytes_per_restart m)"
    and r: "r < bm_num_restarts m"
  shows "(\<exists>i. byteIdx m r s = Inr i \<and> i < length (bm_metrics m)) \<and>
         (\<exists>m'. RecordAccess m r s = Inr m') \<and> (\<exists>h. IsHot m r s = Inr h) \<and>
         byteIdx (BlockMetrics_new 7 4096 1 2) 1 0 = Inr 2 \<and>
         length (bm_metrics (BlockMetrics_new 7 4096 1 2)) = 2 \<and>
         RecordAccess (BlockMetrics_new 7 4096 1 2) 1 0 = Inl OutOfBounds \<and>
         IsHot (BlockMetrics_new 7 4096 1 2) 1 0 = Inl OutOfBounds"
proof -
  from bitIdx_bound[OF window] obtain bi where
    bi: "bitIdx m s = Inr bi" and small: "bi div 8 < unat (bm_bytes_per_restart m)" by blast
  let ?by = "unat (r * bm_bytes_per_restart m) + bi div 8"
  have inside: "?by < length (bm_metrics m)"
    using byte_index_bound[OF small r] size by simp
  have 1: "\<exists>i. byteIdx m r s = Inr i \<and> i < length (bm_metrics m)"
    using bi inside by (simp add: byteIdx_def)
  have 2: "\<exists>m'. RecordAccess m r s = Inr m'"
    using bi inside by (simp add: RecordAccess_def Let_def)
  have 3: "\<exists>h. IsHot m r s = Inr h"
    using bi inside by (simp add: IsHot_def Let_def)
  have 4: "byteIdx (BlockMetrics_new 7 4096 1 2) 1 0 = Inr 2 \<and>
         length (bm_metrics (BlockMetrics_new 7 4096 1 2)) = 2 \<and>
         RecordAccess (BlockMetrics_new 7 4096 1 2) 1 0 = Inl OutOfBounds \<and>
         IsHot (BlockMetrics_new 7 4096 1 2) 1 0 = Inl OutOfBounds"
    by (simp add: byteIdx_def RecordAccess_def IsHot_def bitIdx_def BlockMetrics_new_def)
  from 1 2 3 4 show ?thesis by blast
qed

theorem byte_index_inside_witness:
  "1 \<le> bm_bytes_per_restart metrics_S6 \<and> bm_bytes_per_restart metrics_S6 * 8 \<noteq> 0 \<and>
   length (bm_metrics metrics_S6) =
     unat (bm_num_restarts metrics_S6) * unat (bm_bytes_per_restart metrics_S6) \<and>
   2 < bm_num_restarts metrics_S6 \<and>
   byteIdx metrics_S6 2 15 = Inr 5 \<and> 5 < length (bm_metrics metrics_S6)"
proof -
  have h1: "1 \<le> bm_bytes_per_restart metrics_S6"
    by (simp add: metrics_S6_def)
  have h2: "bm_bytes_per_restart metrics_S6 * 8 \<noteq> 0"
    by (simp add: metrics_S6_def)
  have h3: "length (bm_metrics metrics_S6) =
      unat (bm_num_restarts metrics_S6) * unat (bm_bytes_per_restart metrics_S6)"
    by (simp add: metrics_S6_def)
  have h4: "2 < bm_num_restarts metrics_S6"
    by (simp add: metrics_S6_def)
  have i: "byteIdx metrics_S6 2 15 = Inr 5"
    by (simp add: byteIdx_def bitIdx_def metrics_S6_def)
  from byte_index_inside[OF h1 h2 h3 h4, of 15] h1 h2 h3 h4 i show ?thesis
    by auto
qed

section \<open>Opening a block\<close>

lemma open_block_S2: "open_block block_S2 = Inr (BlockIterator iter_S2)"
  by code_simp

lemma open_block_S4: "open_block block_S4 = Inr (BlockIterator iter_S4)"
  by code_simp

text \<open>
  C9. \<^verbatim>\<open>NewIterator\<close> is to return the error iterator exactly when the buffer violates
  \<open>size \<ge> 8\<close>, \<open>restart_array_offset \<le> size - 4\<close> or the computation of
  \<open>restart_array_offset = size - (1 + num_restarts) * 4\<close> wraps around. The eight bytes
  \<open>00 00 00 00 00 00 00 40\<close> declare \<open>2^30\<close> restarts: \<open>(1 + num_restarts) * 4\<close> is
  \<open>2^32 + 4\<close>, more than the size, and the difference wraps to 4 in the 32 bits of
  \<^verbatim>\<open>restart_offset_\<close>, which passes the check of the constructor. The code returns a Block
  iterator over \<open>2^30\<close> restart points in an array of no bytes, and its \<^verbatim>\<open>Seek\<close> reads
  outside the buffer. On a buffer of four to seven bytes the constructor calls
  \<^verbatim>\<open>NumRestarts\<close>, whose assertion \<open>size_ \<ge> 8\<close> fails: no iterator is returned.
\<close>

theorem open_block_misses_wraparound:
  "open_block [0, 0, 0, 0, 0, 0, 0, 64] =
     Inr (BlockIterator
       \<lparr>i_data = [0, 0, 0, 0, 0, 0, 0, 64], i_restarts = 4, i_num_restarts = 0x40000000,
        i_current = 4, i_restart_index = 0x40000000, i_restart_offset = 0, i_key = [],
        i_value = EmptySlice, i_status = OK\<rparr>) \<and>
   Seek bytewise
       \<lparr>i_data = [0, 0, 0, 0, 0, 0, 0, 64], i_restarts = 4, i_num_restarts = 0x40000000,
        i_current = 4, i_restart_index = 0x40000000, i_restart_offset = 0, i_key = [],
        i_value = EmptySlice, i_status = OK\<rparr> [107] = Some (Inl OutOfBounds) \<and>
   open_block [0, 0, 0, 0] = Inl AssertionFailed"
  by (simp add: open_block_def Block_new_def NumRestarts_def NewIterator_def Iter_new_def
      DecodeFixed32_def Seek_def Seek_search.simps[of _ _ _ 0] GetRestartPoint_def)

section \<open>The restart index under forward iteration\<close>

text \<open>
  C2. After any positioning that leaves the iterator valid, \<open>restart_index\<close> is to be the
  largest \<open>i\<close> with \<open>restart_offset_of(i) \<le> current_offset\<close>, also for an entry that
  lies exactly at a restart point. In the block of scenario S2 the entry \<open>k10\<close> lies at
  offset 17, the restart point 1. Reached by \<^verbatim>\<open>SeekToFirst\<close> and three \<^verbatim>\<open>Next\<close>, the
  iterator is valid at offset 17 with \<open>restart_index = 0\<close> and \<open>restart_offset = 3\<close>:
  the loop of \<^verbatim>\<open>ParseNextKey\<close> advances only past restart points strictly below
  \<open>current_\<close>. Reached by \<^verbatim>\<open>SeekToLast\<close> and \<^verbatim>\<open>Prev\<close>, the same entry has
  \<open>restart_index = 1\<close> and \<open>restart_offset = 0\<close>. One more \<^verbatim>\<open>Next\<close> on the first path
  reaches \<open>k11\<close>, the second entry of region 1, with \<open>restart_offset = 0\<close>.
\<close>

theorem restart_index_lags_at_restart_point:
  "GetRestartPoint iter_S2 1 = Inr 17 \<and>
   run bytewise iter_S2 [OpSeekToFirst, OpNext, OpNext, OpNext] =
     Some (Inr (iter_S2\<lparr>i_current := 17, i_restart_index := 0, i_restart_offset := 3,
                        i_key := [107, 49, 48], i_value := Slice 23 1\<rparr>)) \<and>
   run bytewise iter_S2 [OpSeekToLast, OpPrev] =
     Some (Inr (iter_S2\<lparr>i_current := 17, i_restart_index := 1, i_restart_offset := 0,
                        i_key := [107, 49, 48], i_value := Slice 23 1\<rparr>)) \<and>
   run bytewise iter_S2 [OpSeekToFirst, OpNext, OpNext, OpNext, OpNext] =
     Some (Inr (iter_S2\<lparr>i_current := 24, i_restart_index := 1, i_restart_offset := 0,
                        i_key := [107, 49, 49], i_value := Slice 28 1\<rparr>))"
  by code_simp

section \<open>Corruption\<close>

text \<open>
  C6, as the claim states it, fails: the iterator is not permanently invalid. In the block
  of scenario S4, \<^verbatim>\<open>SeekToFirst\<close> and \<^verbatim>\<open>Next\<close> run into the bad entry: the status is
  corruption, the iterator is invalid, key and value are cleared. A following
  \<^verbatim>\<open>SeekToFirst\<close>, or a \<^verbatim>\<open>Seek\<close> of \<open>a\<close>, parses the first entry again: the iterator is
  valid on the key \<open>abc\<close>, its status still corruption.
\<close>

theorem valid_again_after_corruption:
  "run bytewise iter_S4 [OpSeekToFirst, OpNext] =
     Some (Inr (iter_S4\<lparr>i_status := Corruption ''bad entry in block''\<rparr>)) \<and>
   \<not> Valid (iter_S4\<lparr>i_status := Corruption ''bad entry in block''\<rparr>) \<and>
   run bytewise (iter_S4\<lparr>i_status := Corruption ''bad entry in block''\<rparr>) [OpSeekToFirst] =
     Some (Inr (iter_S4\<lparr>i_current := 0, i_restart_index := 0, i_restart_offset := 0,
                        i_key := [97, 98, 99], i_value := Slice 6 1,
                        i_status := Corruption ''bad entry in block''\<rparr>)) \<and>
   Valid (iter_S4\<lparr>i_current := 0, i_restart_index := 0, i_restart_offset := 0,
                  i_key := [97, 98, 99], i_value := Slice 6 1,
                  i_status := Corruption ''bad entry in block''\<rparr>) \<and>
   run bytewise (iter_S4\<lparr>i_status := Corruption ''bad entry in block''\<rparr>) [OpSeek [97]] =
     Some (Inr (iter_S4\<lparr>i_current := 0, i_restart_index := 0, i_restart_offset := 0,
                        i_key := [97, 98, 99], i_value := Slice 6 1,
                        i_status := Corruption ''bad entry in block''\<rparr>))"
  by code_simp

section \<open>The entries of a well-formed block\<close>

lemma entries_from_chain:
  "entries_from data limit off prev = Some es \<Longrightarrow> chain data limit off prev es"
proof (induction data limit off prev arbitrary: es rule: entries_from.induct)
  case (1 data limit off prev)
  show ?case
  proof (cases "limit \<le> off")
    case True
    with "1.prems" show ?thesis
      by (subst (asm) entries_from.simps) (auto split: if_splits)
  next
    case False
    with "1.prems" obtain e es' where
      e: "entry_at data limit off prev = Some e" and
      es': "entries_from data limit (entry_end e) (e_key e) = Some es'" and
      es: "es = e # es'"
      by (subst (asm) entries_from.simps) (auto split: option.splits)
    from "1.IH"[OF False e es'] e es show ?thesis by simp
  qed
qed

lemma chain_offsets:
  "chain data limit off prev es \<Longrightarrow> e \<in> set es \<Longrightarrow>
   off \<le> e_offset e \<and> e_offset e < entry_end e \<and> entry_end e \<le> limit"
proof (induction es arbitrary: off prev)
  case Nil
  then show ?case by simp
next
  case (Cons x xs)
  from Cons.prems(1) have x: "entry_at data limit off prev = Some x"
    and rest: "chain data limit (entry_end x) (e_key x) xs" by simp_all
  from entry_at_bounds[OF x] have b: "e_offset x = off" "off + 3 \<le> e_value_offset x"
    "entry_end x \<le> limit" by simp_all
  then have lt: "off < entry_end x" by (simp add: entry_end_def)
  show ?case
  proof (cases "e = x")
    case True
    with b lt show ?thesis by simp
  next
    case False
    with Cons.prems(2) have "e \<in> set xs" by simp
    from Cons.IH[OF rest this] lt show ?thesis by simp
  qed
qed

lemma chain_append:
  "chain data limit off prev (xs @ e # ys) \<Longrightarrow>
   \<exists>off' prev'. off \<le> off' \<and> entry_at data limit off' prev' = Some e \<and>
      chain data limit off' prev' (e # ys) \<and>
      (xs = [] \<longrightarrow> off' = off \<and> prev' = prev) \<and>
      (xs \<noteq> [] \<longrightarrow> off' = entry_end (last xs) \<and> prev' = e_key (last xs))"
proof (induction xs arbitrary: off prev)
  case Nil
  then show ?case by auto
next
  case (Cons x xs)
  from Cons.prems have x: "entry_at data limit off prev = Some x"
    and rest: "chain data limit (entry_end x) (e_key x) (xs @ e # ys)" by simp_all
  from entry_at_bounds[OF x] have lt: "off \<le> entry_end x" by (simp add: entry_end_def)
  from Cons.IH[OF rest] obtain off' prev' where
    1: "entry_end x \<le> off'" and 2: "entry_at data limit off' prev' = Some e" and
    3: "chain data limit off' prev' (e # ys)" and
    4: "xs = [] \<longrightarrow> off' = entry_end x \<and> prev' = e_key x" and
    5: "xs \<noteq> [] \<longrightarrow> off' = entry_end (last xs) \<and> prev' = e_key (last xs)"
    by blast
  from 1 lt have "off \<le> off'" by simp
  with 2 3 4 5 show ?case by (cases "xs = []") auto
qed

text \<open>An entry that shares nothing decodes the same after any key.\<close>

lemma entry_at_unshared:
  assumes "entry_at data limit off prev = Some e" and "e_shared e = 0"
  shows "entry_at data limit off prev' = Some e"
proof -
  from entry_at_Some[OF assms(1)] obtain shared non_shared value_length rest where
    dec: "DecodeEntry (drop off (take limit data)) = Some (shared, non_shared, value_length, rest)"
    and fits: "unat non_shared + unat value_length \<le> length rest"
    and e: "e = \<lparr>e_offset = off, e_shared = unat shared,
           e_key = take (unat shared) prev @
                   take (unat non_shared) (drop (limit - length rest) data),
           e_value_offset = limit - length rest + unat non_shared,
           e_value_length = unat value_length\<rparr>"
    by blast
  have "e_shared e = unat shared" by (simp add: e)
  with assms(2) have z: "unat shared = 0" by simp
  have "entry_at data limit off prev' =
      Some \<lparr>e_offset = off, e_shared = unat shared,
           e_key = take (unat shared) prev' @
                   take (unat non_shared) (drop (limit - length rest) data),
           e_value_offset = limit - length rest + unat non_shared,
           e_value_length = unat value_length\<rparr>"
    unfolding entry_at_def dec using fits z by (simp add: Let_def)
  also have "\<dots> = Some e"
    unfolding e z by simp
  finally show ?thesis .
qed

lemma chain_unshared:
  assumes "chain data limit off prev (e # es)" and "e_shared e = 0"
  shows "chain data limit off prev' (e # es)"
proof -
  from assms(1) have "entry_at data limit off prev = Some e" by simp
  from entry_at_unshared[OF this assms(2)] have "entry_at data limit off prev' = Some e" .
  with assms(1) show ?thesis by simp
qed


section \<open>Parsing on a well-formed block\<close>

lemma unat_of_nat_u32: "n < 2 ^ 32 \<Longrightarrow> unat (of_nat n :: u32) = n"
  by (simp add: unat_of_nat)

lemma of_nat_less_u32: "a < b \<Longrightarrow> b < 2 ^ 32 \<Longrightarrow> (of_nat a :: u32) < of_nat b"
  by (simp add: word_less_nat_alt unat_of_nat_u32)

lemma well_formed_sizes:
  assumes "well_formed data"
  shows "block_restarts data + 4 * (block_num_restarts data + 1) = length data"
    and "block_restarts data < 2 ^ 32" and "block_num_restarts data < 2 ^ 32"
    and "1 \<le> block_num_restarts data" and "length data < 2 ^ 32"
proof -
  from assms have a: "4 * (block_num_restarts data + 1) \<le> length data"
    and b: "length data < 2 ^ 32" and c: "1 \<le> block_num_restarts data"
    by (simp_all add: well_formed_def)
  show "block_restarts data + 4 * (block_num_restarts data + 1) = length data"
    using a by (simp add: block_restarts_def)
  show "block_restarts data < 2 ^ 32" using b by (simp add: block_restarts_def)
  show "block_num_restarts data < 2 ^ 32" using a b by simp
  show "1 \<le> block_num_restarts data" by (rule c)
  show "length data < 2 ^ 32" by (rule b)
qed

lemma iterates_unat:
  assumes "well_formed data" "iterates data it"
  shows "unat (i_restarts it) = block_restarts data"
    and "unat (i_num_restarts it) = block_num_restarts data"
    and "i_data it = data"
  using assms well_formed_sizes(2,3)[OF assms(1)]
  by (simp_all add: iterates_def unat_of_nat_u32)

lemma GetRestartPoint_wf:
  assumes wf: "well_formed data" and it: "iterates data it"
    and idx: "index < i_num_restarts it"
  shows "GetRestartPoint it index = Inr (of_nat (restart_point data (unat index)))"
proof -
  note u = iterates_unat[OF wf it]
  from idx have "unat index < block_num_restarts data"
    by (simp add: word_less_nat_alt u)
  with well_formed_sizes(1)[OF wf]
  have inb: "block_restarts data + unat index * 4 + 4 \<le> length data" by simp
  have "restart_point data (unat index) =
      unat (DecodeFixed32 (take 4 (drop (block_restarts data + unat index * 4) data)))"
    by (simp add: restart_point_def mult.commute)
  then show ?thesis using idx inb
    by (simp add: GetRestartPoint_def Let_def u)
qed

lemma SeekToRestartPoint_wf:
  assumes wf: "well_formed data" and it: "iterates data it"
    and idx: "index < i_num_restarts it"
  shows "SeekToRestartPoint it index =
     Inr (it\<lparr>i_key := [], i_restart_index := index, i_restart_offset := - 1,
             i_value := Slice (restart_point data (unat index)) 0\<rparr>)"
proof -
  have "unat w < 2 ^ 32" for w :: u32
    using unsigned_less[of w] by simp
  then have "restart_point data (unat index) < 2 ^ 32"
    unfolding restart_point_def by simp
  then show ?thesis
    by (simp add: SeekToRestartPoint_def GetRestartPoint_wf[OF assms] unat_of_nat_u32)
qed

lemma ParseNextKey_restarts_wf:
  assumes wf: "well_formed data"
  shows "iterates data it \<Longrightarrow> i_restart_index it < i_num_restarts it \<Longrightarrow>
    \<exists>it'. ParseNextKey_restarts it = Inr it' \<and> i_restart_index it' < i_num_restarts it"
proof (induction it rule: ParseNextKey_restarts.induct)
  case (1 it)
  show ?case
  proof (cases "i_restart_index it + 1 < i_num_restarts it")
    case False
    then have "ParseNextKey_restarts it = Inr it"
      by (subst ParseNextKey_restarts.simps) simp
    with "1.prems" show ?thesis by simp
  next
    case True
    let ?off = "of_nat (restart_point data (unat (i_restart_index it + 1))) :: u32"
    have g: "GetRestartPoint it (i_restart_index it + 1) = Inr ?off"
      by (rule GetRestartPoint_wf[OF wf "1.prems"(1) True])
    show ?thesis
    proof (cases "?off < i_current it")
      case False
      with True g have "ParseNextKey_restarts it = Inr it"
        by (subst ParseNextKey_restarts.simps) simp
      with "1.prems" show ?thesis by simp
    next
      case lt: True
      let ?it1 = "it\<lparr>i_restart_index := i_restart_index it + 1, i_restart_offset := 0\<rparr>"
      have step: "ParseNextKey_restarts it = ParseNextKey_restarts ?it1"
        using True g lt by (subst ParseNextKey_restarts.simps) simp
      have "iterates data ?it1" using "1.prems"(1) by (simp add: iterates_def)
      moreover have "i_restart_index ?it1 < i_num_restarts ?it1" using True by simp
      ultimately obtain it' where "ParseNextKey_restarts ?it1 = Inr it'"
        and "i_restart_index it' < i_num_restarts ?it1"
        using "1.IH"[OF True g lt] by blast
      with step show ?thesis by simp
    qed
  qed
qed

lemma ParseNextKey_entry:
  assumes wf: "well_formed data" and it: "iterates data it"
    and neo: "NextEntryOffset it = Inr (of_nat off)"
    and e: "entry_at data (block_restarts data) off (i_key it) = Some e"
    and ri: "i_restart_index it < i_num_restarts it"
  shows "\<exists>it'. ParseNextKey it = Inr (True, it') \<and> positioned it' e \<and> iterates data it' \<and>
      i_status it' = i_status it \<and> i_restart_index it' < i_num_restarts it' \<and>
      NextEntryOffset it' = Inr (of_nat (entry_end e))"
proof -
  note u = iterates_unat[OF wf it]
  let ?R = "block_restarts data"
  note sz = well_formed_sizes[OF wf]
  from entry_at_bounds[OF e] have offR: "off < ?R" by simp
  then have uoff: "unat (of_nat off :: u32) = off" using sz(2) by (simp add: unat_of_nat_u32)
  have cur_lt: "\<not> i_restarts it \<le> (of_nat off :: u32)"
    using offR uoff by (simp add: word_le_nat_alt u)
  have inb: "\<not> length (i_data it) < unat (i_restarts it)"
    using sz(1) by (simp add: u)
  from entry_at_Some[OF e] obtain shared non_shared value_length rest where
    dec: "DecodeEntry (drop off (take ?R data)) = Some (shared, non_shared, value_length, rest)"
    and sh: "unat shared \<le> length (i_key it)"
    and fits: "unat non_shared + unat value_length \<le> length rest"
    and eq: "e = \<lparr>e_offset = off, e_shared = unat shared,
           e_key = take (unat shared) (i_key it) @
                   take (unat non_shared) (drop (?R - length rest) data),
           e_value_offset = ?R - length rest + unat non_shared,
           e_value_length = unat value_length\<rparr>"
    by blast
  from DecodeEntry_Some[OF dec] obtain pre where
    pre: "drop off (take ?R data) = pre @ rest" by blast
  have "length (drop off (take ?R data)) \<le> ?R - off" by simp
  with pre have restR: "length rest \<le> ?R" by simp
  let ?p = "?R - length rest"
  have kb: "\<not> length (i_data it) < ?p + unat non_shared"
    using fits restR sz(1) by (simp add: u)
  let ?it2 = "it\<lparr>i_current := of_nat off, i_restart_offset := i_restart_offset it + 1,
                  i_key := take (unat shared) (i_key it) @
                           take (unat non_shared) (drop ?p (i_data it)),
                  i_value := Slice (?p + unat non_shared) (unat value_length)\<rparr>"
  have it2: "iterates data ?it2" using it by (simp add: iterates_def)
  have ri2: "i_restart_index ?it2 < i_num_restarts ?it2" using ri by simp
  from ParseNextKey_restarts_wf[OF wf it2 ri2] obtain it' where
    loop: "ParseNextKey_restarts ?it2 = Inr it'" and ri': "i_restart_index it' < i_num_restarts ?it2"
    by blast
  note fr = ParseNextKey_restarts_frame[OF loop]
  have parse: "ParseNextKey it = Inr (True, it')"
    using neo cur_lt inb dec sh kb loop
    by (simp add: ParseNextKey_def Let_def uoff u)
  have f1: "i_current it' = of_nat off" by (subst fr) simp
  have f2: "i_key it' = e_key e" by (subst fr) (simp add: eq u)
  have f3: "i_value it' = Slice (e_value_offset e) (e_value_length e)"
    by (subst fr) (simp add: eq)
  have f4: "i_status it' = i_status it" by (subst fr) simp
  have f5: "iterates data it'" using it2 by (subst fr) (simp add: iterates_def)
  have f6: "i_num_restarts it' = i_num_restarts it" by (subst fr) simp
  have "positioned it' e" using f1 f2 f3 by (simp add: positioned_def eq)
  moreover have "NextEntryOffset it' = Inr (of_nat (entry_end e))"
    using f3 by (simp add: NextEntryOffset_def entry_end_def)
  ultimately show ?thesis using parse f4 f5 f6 ri' by auto
qed

lemma ParseNextKey_end:
  assumes it: "iterates data it"
    and neo: "NextEntryOffset it = Inr (of_nat (block_restarts data))"
  shows "\<exists>it'. ParseNextKey it = Inr (False, it') \<and> \<not> Valid it' \<and> iterates data it' \<and>
      i_status it' = i_status it"
proof -
  have "i_restarts it = of_nat (block_restarts data)" using it by (simp add: iterates_def)
  then show ?thesis using neo it
    by (simp add: ParseNextKey_def Let_def Valid_def iterates_def)
qed

lemma positioned_Valid:
  assumes wf: "well_formed data" and it: "iterates data it" and p: "positioned it e"
    and lt: "e_offset e < block_restarts data"
  shows "Valid it"
proof -
  have "(of_nat (e_offset e) :: u32) < of_nat (block_restarts data)"
    using lt well_formed_sizes(2)[OF wf] by (rule of_nat_less_u32)
  then show ?thesis using it p by (simp add: Valid_def positioned_def iterates_def)
qed

lemma Seek_scan_chain:
  assumes wf: "well_formed data"
  shows "iterates data it \<Longrightarrow> NextEntryOffset it = Inr (of_nat off) \<Longrightarrow>
    chain data (block_restarts data) off (i_key it) es \<Longrightarrow>
    i_restart_index it < i_num_restarts it \<Longrightarrow>
    \<exists>it'. Seek_scan compare it target = Inr it' \<and> iterates data it' \<and>
      i_status it' = i_status it \<and>
      (case find (\<lambda>e. 0 \<le> compare (e_key e) target) es of
         None \<Rightarrow> \<not> Valid it'
       | Some e \<Rightarrow> positioned it' e \<and> Valid it' \<and> i_restart_index it' < i_num_restarts it')"
proof (induction es arbitrary: it off)
  case Nil
  then have "NextEntryOffset it = Inr (of_nat (block_restarts data))" by simp
  from ParseNextKey_end[OF Nil.prems(1) this] obtain it' where
    "ParseNextKey it = Inr (False, it')" "\<not> Valid it'" "iterates data it'"
    "i_status it' = i_status it" by blast
  then show ?case
    by (subst Seek_scan.simps) simp
next
  case (Cons e es)
  from Cons.prems(3) have e: "entry_at data (block_restarts data) off (i_key it) = Some e"
    and rest: "chain data (block_restarts data) (entry_end e) (e_key e) es" by simp_all
  from ParseNextKey_entry[OF wf Cons.prems(1,2) e Cons.prems(4)] obtain it1 where
    parse: "ParseNextKey it = Inr (True, it1)" and pos: "positioned it1 e" and
    it1: "iterates data it1" and st: "i_status it1 = i_status it" and
    ri1: "i_restart_index it1 < i_num_restarts it1" and
    neo1: "NextEntryOffset it1 = Inr (of_nat (entry_end e))"
    by blast
  have key1: "i_key it1 = e_key e" using pos by (simp add: positioned_def)
  from entry_at_bounds[OF e] have "e_offset e < block_restarts data" by simp
  from positioned_Valid[OF wf it1 pos this] have v1: "Valid it1" .
  show ?case
  proof (cases "0 \<le> compare (e_key e) target")
    case True
    then have "Seek_scan compare it target = Inr it1"
      using parse key1 by (subst Seek_scan.simps) simp
    with True pos v1 it1 st ri1 show ?thesis by simp
  next
    case False
    then have step: "Seek_scan compare it target = Seek_scan compare it1 target"
      using parse key1 by (subst Seek_scan.simps) simp
    from rest key1 have "chain data (block_restarts data) (entry_end e) (i_key it1) es" by simp
    from Cons.IH[OF it1 neo1 this ri1] step st False show ?thesis by simp
  qed
qed

section \<open>Restart points and their keys\<close>

lemma chain_before:
  "chain data limit off prev (xs @ e # ys) \<Longrightarrow> x \<in> set xs \<Longrightarrow> e_offset x < e_offset e"
proof (induction xs arbitrary: off prev)
  case Nil
  then show ?case by simp
next
  case (Cons a xs)
  from Cons.prems(1) have a: "entry_at data limit off prev = Some a"
    and rest: "chain data limit (entry_end a) (e_key a) (xs @ e # ys)" by simp_all
  show ?case
  proof (cases "x = a")
    case True
    from entry_at_bounds[OF a] have "e_offset a < entry_end a" by (simp add: entry_end_def)
    moreover from chain_offsets[OF rest, of e] have "entry_end a \<le> e_offset e" by simp
    ultimately show ?thesis using True by simp
  next
    case False
    with Cons.prems(2) have "x \<in> set xs" by simp
    from Cons.IH[OF rest this] show ?thesis .
  qed
qed

lemma well_formed_chain:
  assumes "well_formed data" and "block_entries data = Some es"
  shows "chain data (block_restarts data) 0 [] es"
  using assms(2) unfolding block_entries_def by (rule entries_from_chain)

lemma restart_points_increase:
  assumes wf: "well_formed data" and "i < j" and "j < block_num_restarts data"
  shows "restart_point data i < restart_point data j"
proof -
  from wf have "sorted_wrt (<) (map (restart_point data) [0..<block_num_restarts data])"
    by (simp add: well_formed_def)
  from sorted_wrt_nth_less[OF this, of i j] assms(2,3) show ?thesis by simp
qed

lemma restart_entry:
  assumes wf: "well_formed data" and es: "block_entries data = Some es"
    and j: "j < block_num_restarts data"
  shows "\<exists>xs e ys. es = xs @ e # ys \<and> e_offset e = restart_point data j \<and> e_shared e = 0 \<and>
      chain data (block_restarts data) (restart_point data j) [] (e # ys) \<and>
      restart_key data j = e_key e"
proof -
  from wf es have "list_all
      (\<lambda>j. list_ex (\<lambda>e. e_offset e = restart_point data j \<and> e_shared e = 0) es)
      [0..<block_num_restarts data]"
    by (simp add: well_formed_def)
  then have "\<forall>j\<in>set [0..<block_num_restarts data].
      list_ex (\<lambda>e. e_offset e = restart_point data j \<and> e_shared e = 0) es"
    by (simp only: list_all_iff)
  moreover have "j \<in> set [0..<block_num_restarts data]" using j by simp
  ultimately have "list_ex (\<lambda>e. e_offset e = restart_point data j \<and> e_shared e = 0) es"
    by (rule bspec)
  then obtain e where mem: "e \<in> set es" and off: "e_offset e = restart_point data j"
    and sh: "e_shared e = 0"
    by (auto simp: list_ex_iff)
  from split_list[OF mem] obtain xs ys where split: "es = xs @ e # ys" by blast
  from well_formed_chain[OF wf es] split
  have "chain data (block_restarts data) 0 [] (xs @ e # ys)" by simp
  from chain_append[OF this] obtain off' prev' where
    at: "entry_at data (block_restarts data) off' prev' = Some e" and
    ch: "chain data (block_restarts data) off' prev' (e # ys)" by blast
  from entry_at_bounds[OF at] off have off': "off' = restart_point data j" by simp
  from chain_unshared[OF ch sh, of "[]"] off'
  have ch0: "chain data (block_restarts data) (restart_point data j) [] (e # ys)" by simp
  then have "entry_at data (block_restarts data) (restart_point data j) [] = Some e" by simp
  then have "restart_key data j = e_key e" by (simp add: restart_key_def)
  with split off sh ch0 show ?thesis by blast
qed

lemma restart_keys_sorted:
  assumes wf: "well_formed data" and sorted: "sorted_block compare data"
    and ij: "i < j" and j: "j < block_num_restarts data"
  shows "compare (restart_key data i) (restart_key data j) \<le> 0"
proof -
  from sorted obtain es where es: "block_entries data = Some es"
    and srt: "sorted_wrt (\<lambda>a b. compare a b \<le> 0) (map e_key es)"
    by (auto simp: sorted_block_def split: option.splits)
  from ij j have i: "i < block_num_restarts data" by simp
  from restart_entry[OF wf es i] obtain xs e ys where
    split: "es = xs @ e # ys" and offi: "e_offset e = restart_point data i" and
    ki: "restart_key data i = e_key e" by blast
  from restart_entry[OF wf es j] obtain xs' e' ys' where
    split': "es = xs' @ e' # ys'" and offj: "e_offset e' = restart_point data j" and
    kj: "restart_key data j = e_key e'" by blast
  from restart_points_increase[OF wf ij j] offi offj have lt: "e_offset e < e_offset e'" by simp
  have ch: "chain data (block_restarts data) 0 [] (xs @ e # ys)"
    using well_formed_chain[OF wf es] split by simp
  have "e' \<in> set es" using split' by simp
  then have "e' \<in> set xs \<or> e' = e \<or> e' \<in> set ys" using split by auto
  moreover have "e' \<notin> set xs" using chain_before[OF ch, of e'] lt by auto
  moreover have "e' \<noteq> e" using lt by auto
  ultimately have "e' \<in> set ys" by blast
  moreover from srt split have "\<forall>y\<in>set ys. compare (e_key e) (e_key y) \<le> 0"
    by (simp add: sorted_wrt_append)
  ultimately show ?thesis using ki kj by simp
qed

lemma total_order_le_less:
  assumes "total_order compare" and "compare a b \<le> 0" and "compare b c < 0"
  shows "compare a c < 0"
proof (rule ccontr)
  assume "\<not> compare a c < 0"
  from assms(1) have sw: "\<And>x y. (compare x y < 0) = (0 < compare y x)"
    and tr: "\<And>x y z. compare x y \<le> 0 \<Longrightarrow> compare y z \<le> 0 \<Longrightarrow> compare x z \<le> 0"
    by (auto simp: total_order_def)
  from \<open>\<not> compare a c < 0\<close> sw[of a c] have "\<not> 0 < compare c a" by simp
  then have "compare c a \<le> 0" by simp
  from tr[OF this assms(2)] have "compare c b \<le> 0" .
  moreover from assms(3) sw[of b c] have "0 < compare c b" by simp
  ultimately show False by simp
qed

lemma before_restart_smaller:
  assumes wf: "well_formed data" and sorted: "sorted_block compare data"
    and ord: "total_order compare"
    and es: "block_entries data = Some (xs @ e # ys)"
    and off: "e_offset e = restart_point data L"
    and key: "restart_key data L = e_key e"
    and L: "L = 0 \<or> compare (restart_key data L) target < 0"
    and x: "x \<in> set xs"
  shows "compare (e_key x) target < 0"
proof -
  have ch: "chain data (block_restarts data) 0 [] (xs @ e # ys)"
    using well_formed_chain[OF wf es] .
  from chain_before[OF ch x] have lt: "e_offset x < e_offset e" .
  have "L \<noteq> 0"
  proof
    assume "L = 0"
    with wf off have "e_offset e = 0" by (simp add: well_formed_def)
    with lt show False by simp
  qed
  with L key have small: "compare (e_key e) target < 0" by simp
  from sorted es have "sorted_wrt (\<lambda>a b. compare a b \<le> 0) (map e_key (xs @ e # ys))"
    by (simp add: sorted_block_def)
  with x have "compare (e_key x) (e_key e) \<le> 0"
    by (auto simp: sorted_wrt_append)
  from total_order_le_less[OF ord this small] show ?thesis .
qed

lemma find_append_none:
  "(\<And>x. x \<in> set xs \<Longrightarrow> \<not> P x) \<Longrightarrow> find P (xs @ ys) = find P ys"
  by (induction xs) simp_all

lemma restart_decode:
  assumes wf: "well_formed data" and es: "block_entries data = Some es"
    and j: "j < block_num_restarts data"
  shows "\<exists>non_shared value_length rest.
      DecodeEntry (drop (restart_point data j) (take (block_restarts data) data)) =
        Some (0, non_shared, value_length, rest) \<and>
      block_restarts data - length rest + unat non_shared \<le> length data \<and>
      take (unat non_shared) (drop (block_restarts data - length rest) data) =
        restart_key data j"
proof -
  let ?R = "block_restarts data"
  from restart_entry[OF wf es j] obtain xs e ys where
    sh: "e_shared e = 0" and
    ch: "chain data ?R (restart_point data j) [] (e # ys)" and
    key: "restart_key data j = e_key e" by blast
  from ch have at: "entry_at data ?R (restart_point data j) [] = Some e" by simp
  from entry_at_Some[OF at] obtain shared non_shared value_length rest where
    dec: "DecodeEntry (drop (restart_point data j) (take ?R data)) =
            Some (shared, non_shared, value_length, rest)"
    and fits: "unat non_shared + unat value_length \<le> length rest"
    and eq: "e = \<lparr>e_offset = restart_point data j, e_shared = unat shared,
           e_key = take (unat shared) [] @
                   take (unat non_shared) (drop (?R - length rest) data),
           e_value_offset = ?R - length rest + unat non_shared,
           e_value_length = unat value_length\<rparr>"
    by blast
  have "e_shared e = unat shared" by (simp add: eq)
  with sh have "unat shared = 0" by simp
  then have z: "shared = 0" by (simp add: unat_eq_0)
  from DecodeEntry_Some[OF dec] obtain pre where
    pre: "drop (restart_point data j) (take ?R data) = pre @ rest" by blast
  have "length (drop (restart_point data j) (take ?R data)) \<le> ?R - restart_point data j"
    by simp
  with pre have restR: "length rest \<le> ?R" by simp
  have "?R \<le> length data" using well_formed_sizes(1)[OF wf] by simp
  with fits restR have inb: "?R - length rest + unat non_shared \<le> length data" by simp
  have "e_key e = take (unat non_shared) (drop (?R - length rest) data)"
    by (simp add: eq)
  with dec z inb key show ?thesis by auto
qed

section \<open>The binary search\<close>

lemma well_formed_few_restarts:
  assumes "well_formed data"
  shows "block_num_restarts data < 2 ^ 30"
proof -
  from assms have "4 * (block_num_restarts data + 1) \<le> length data"
    and "length data < 2 ^ 32"
    by (simp_all add: well_formed_def)
  then show ?thesis by simp
qed

lemma mid_word:
  assumes "l < 2 ^ 30" "r < 2 ^ 30"
  shows "((of_nat l :: u32) + of_nat r + 1) div 2 = of_nat ((l + r + 1) div 2)"
proof -
  have small: "l + r + 1 < 2 ^ 32" using assms by simp
  have "unat ((of_nat l :: u32) + of_nat r + 1) = unat (of_nat (l + r + 1) :: u32)"
    by (simp only: of_nat_add of_nat_1)
  also have "\<dots> = l + r + 1" using small by (rule unat_of_nat_u32)
  finally have u: "unat ((of_nat l :: u32) + of_nat r + 1) = l + r + 1" .
  have "(l + r + 1) div 2 < 2 ^ 32" using small by simp
  then have "unat (of_nat ((l + r + 1) div 2) :: u32) = (l + r + 1) div 2"
    by (rule unat_of_nat_u32)
  moreover have "unat (((of_nat l :: u32) + of_nat r + 1) div 2) = (l + r + 1) div 2"
    by (simp only: unat_div u) simp
  ultimately show ?thesis by (simp only: word_unat_eq_iff)
qed

lemma Seek_search_wf:
  assumes wf: "well_formed data" and sorted: "sorted_block compare data"
    and ord: "total_order compare" and it: "iterates data it"
  shows "l \<le> r \<Longrightarrow> r < block_num_restarts data \<Longrightarrow>
    l = 0 \<or> compare (restart_key data l) target < 0 \<Longrightarrow>
    (\<And>j. r < j \<Longrightarrow> j < block_num_restarts data \<Longrightarrow>
        0 \<le> compare (restart_key data j) target) \<Longrightarrow>
    \<exists>L. Seek_search compare it target (of_nat l) (of_nat r) = Some (Inr (Some (of_nat L))) \<and>
        L < block_num_restarts data \<and>
        (L = 0 \<or> compare (restart_key data L) target < 0) \<and>
        (\<forall>j. L < j \<and> j < block_num_restarts data \<longrightarrow>
            0 \<le> compare (restart_key data j) target)"
proof (induction "r - l" arbitrary: l r rule: less_induct)
  case less
  let ?n = "block_num_restarts data"
  let ?R = "block_restarts data"
  note n30 = well_formed_few_restarts[OF wf]
  note u = iterates_unat[OF wf it]
  from less.prems(1,2) n30 have l30: "l < 2 ^ 30" and r30: "r < 2 ^ 30" by simp_all
  then have l32: "l < 2 ^ 32" and r32: "r < 2 ^ 32" by simp_all
  show ?case
  proof (cases "l < r")
    case False
    with less.prems(1) have eq: "l = r" by simp
    have "\<not> (of_nat l :: u32) < of_nat r" using eq by simp
    then have "Seek_search compare it target (of_nat l) (of_nat r) = Some (Inr (Some (of_nat l)))"
      by (subst Seek_search.simps) simp
    moreover have "l < ?n" using eq less.prems(2) by simp
    moreover have "\<forall>j. l < j \<and> j < ?n \<longrightarrow> 0 \<le> compare (restart_key data j) target"
      using less.prems(4) eq by simp
    ultimately show ?thesis using less.prems(3) by blast
  next
    case True
    let ?mid = "(l + r + 1) div 2"
    have mid_gt: "l < ?mid" and mid_le: "?mid \<le> r" using True by simp_all
    have midn: "?mid < ?n" using mid_le less.prems(2) by simp
    have mid32: "?mid < 2 ^ 32" using mid_le r32 by simp
    have lt: "(of_nat l :: u32) < of_nat r" using True r32 by (rule of_nat_less_u32)
    have midw: "((of_nat l :: u32) + of_nat r + 1) div 2 = of_nat ?mid"
      using l30 r30 by (rule mid_word)
    have umid: "unat (of_nat ?mid :: u32) = ?mid" using mid32 by (rule unat_of_nat_u32)
    have "(of_nat ?mid :: u32) < i_num_restarts it"
      using midn umid by (simp add: word_less_nat_alt u)
    from GetRestartPoint_wf[OF wf it this]
    have grp: "GetRestartPoint it (of_nat ?mid) = Inr (of_nat (restart_point data ?mid))"
      by (simp only: umid)
    have "unat w < 2 ^ 32" for w :: u32
      using unsigned_less[of w] by simp
    then have "restart_point data ?mid < 2 ^ 32"
      unfolding restart_point_def by simp
    then have urp: "unat (of_nat (restart_point data ?mid) :: u32) = restart_point data ?mid"
      by (rule unat_of_nat_u32)
    from wf obtain es where es: "block_entries data = Some es"
      by (auto simp: well_formed_def split: option.splits)
    from restart_decode[OF wf es midn] obtain non_shared value_length rest where
      dec: "DecodeEntry (drop (restart_point data ?mid) (take ?R data)) =
              Some (0, non_shared, value_length, rest)" and
      inb: "?R - length rest + unat non_shared \<le> length data" and
      key: "take (unat non_shared) (drop (?R - length rest) data) = restart_key data ?mid"
      by blast
    have Rle: "\<not> length data < ?R" using well_formed_sizes(1)[OF wf] by simp
    have inb': "\<not> length data < ?R - length rest + unat non_shared" using inb by simp
    have pred: "(of_nat ?mid :: u32) - 1 = of_nat (?mid - 1)"
      using mid_gt by (simp add: of_nat_diff)
    have step: "Seek_search compare it target (of_nat l) (of_nat r) =
        (if compare (restart_key data ?mid) target < 0
         then Seek_search compare it target (of_nat ?mid) (of_nat r)
         else Seek_search compare it target (of_nat l) (of_nat (?mid - 1)))"
      by (subst Seek_search.simps)
         (simp only: lt if_True Let_def midw grp sum.case u urp Rle if_False dec option.case
            prod.case inb' key pred simp_thms)
    show ?thesis
    proof (cases "compare (restart_key data ?mid) target < 0")
      case small: True
      have "r - ?mid < r - l" using mid_gt mid_le by simp
      from less.hyps[OF this mid_le less.prems(2) _ less.prems(4)] small
      obtain L where
        "Seek_search compare it target (of_nat ?mid) (of_nat r) = Some (Inr (Some (of_nat L)))"
        "L < ?n" "L = 0 \<or> compare (restart_key data L) target < 0"
        "\<forall>j. L < j \<and> j < ?n \<longrightarrow> 0 \<le> compare (restart_key data j) target"
        by blast
      with step small show ?thesis by auto
    next
      case big: False
      have m1: "l \<le> ?mid - 1" using mid_gt by simp
      have m2: "?mid - 1 < ?n" using midn by simp
      have m3: "?mid - 1 - l < r - l" using mid_gt mid_le by simp
      have upper: "0 \<le> compare (restart_key data j) target"
        if "?mid - 1 < j" and "j < ?n" for j
      proof (cases "j = ?mid")
        case True
        with big show ?thesis by simp
      next
        case False
        with that(1) have "?mid < j" by simp
        from restart_keys_sorted[OF wf sorted this that(2)]
        have le: "compare (restart_key data ?mid) (restart_key data j) \<le> 0" .
        show ?thesis
        proof (rule ccontr)
          assume "\<not> 0 \<le> compare (restart_key data j) target"
          then have "compare (restart_key data j) target < 0" by simp
          from total_order_le_less[OF ord le this] big show False by simp
        qed
      qed
      from less.hyps[OF m3 m1 m2 less.prems(3) upper]
      obtain L where
        "Seek_search compare it target (of_nat l) (of_nat (?mid - 1)) =
           Some (Inr (Some (of_nat L)))"
        "L < ?n" "L = 0 \<or> compare (restart_key data L) target < 0"
        "\<forall>j. L < j \<and> j < ?n \<longrightarrow> 0 \<le> compare (restart_key data j) target"
        by blast
      with step big show ?thesis by auto
    qed
  qed
qed

section \<open>The example block is well formed\<close>

lemma bytewise_swap: "(bytewise a b < 0) = (0 < bytewise b a)"
  by (induction a b rule: bytewise.induct) auto

lemma bytewise_le_trans: "bytewise a b \<le> 0 \<Longrightarrow> bytewise b c \<le> 0 \<Longrightarrow> bytewise a c \<le> 0"
proof (induction a b arbitrary: c rule: bytewise.induct)
  case 1
  then show ?case by simp
next
  case (2 b bs)
  then show ?case by (cases c) simp_all
next
  case (3 a as)
  then show ?case by simp
next
  case (4 a as b bs)
  show ?case
  proof (cases c)
    case Nil
    with "4.prems" show ?thesis by (simp split: if_splits)
  next
    case (Cons x xs)
    with "4.prems" "4.IH"[of xs] show ?thesis
      by (auto split: if_splits)
  qed
qed

lemma total_order_bytewise: "total_order bytewise"
  unfolding total_order_def using bytewise_swap bytewise_le_trans by blast

lemma well_formed_S2_1: "8 \<le> length block_S2" by (simp add: block_S2_def)
lemma well_formed_S2_2: "length block_S2 < 2 ^ 32" by (simp add: block_S2_def)
lemma well_formed_S2_3: "1 \<le> block_num_restarts block_S2" by code_simp
lemma well_formed_S2_4: "4 * (block_num_restarts block_S2 + 1) \<le> length block_S2" by code_simp
lemma well_formed_S2_5: "restart_point block_S2 0 = 0" by code_simp
lemma well_formed_S2_6: "sorted_wrt (<) (map (restart_point block_S2) [0..<block_num_restarts block_S2])" by code_simp
lemma well_formed_S2_7: "(case block_entries block_S2 of
        None \<Rightarrow> False
      | Some es \<Rightarrow>
          list_all
            (\<lambda>j. list_ex (\<lambda>e. e_offset e = restart_point block_S2 j \<and> e_shared e = 0) es)
            [0..<block_num_restarts block_S2])" by code_simp

lemma well_formed_S2: "well_formed block_S2"
  unfolding well_formed_def by (intro conjI well_formed_S2_1 well_formed_S2_2 well_formed_S2_3 well_formed_S2_4 well_formed_S2_5 well_formed_S2_6 well_formed_S2_7)

lemma sorted_block_S2: "sorted_block bytewise block_S2"
  by code_simp

lemma iterates_S2: "iterates block_S2 iter_S2"
  by code_simp

lemma block_entries_S2: "block_entries block_S2 = Some entries_S2"
  by code_simp


section \<open>Seek\<close>

text \<open>
  \<^verbatim>\<open>Seek\<close> on a well-formed block whose keys do not decrease: the binary search
  returns a restart index, the scan from there returns, and the iterator it leaves is on
  the first entry whose key is not below the target, or invalid when there is none.
\<close>

lemma Seek_well_formed:
  assumes wf: "well_formed data" and sorted: "sorted_block compare data"
    and ord: "total_order compare" and it: "iterates data it"
    and es: "block_entries data = Some es"
  shows "\<exists>L it'.
      Seek_search compare it target 0 (i_num_restarts it - 1) = Some (Inr (Some (of_nat L))) \<and>
      L < block_num_restarts data \<and>
      (L = 0 \<or> compare (restart_key data L) target < 0) \<and>
      (\<forall>j. L < j \<and> j < block_num_restarts data \<longrightarrow>
          0 \<le> compare (restart_key data j) target) \<and>
      Seek compare it target = Some (Inr it') \<and> i_status it' = i_status it \<and>
      iterates data it' \<and>
      (case find (\<lambda>e. 0 \<le> compare (e_key e) target) es of
         None \<Rightarrow> \<not> Valid it'
       | Some e \<Rightarrow> Valid it' \<and> positioned it' e \<and>
           i_restart_index it' < i_num_restarts it')"
proof -
  let ?n = "block_num_restarts data"
  let ?R = "block_restarts data"
  note sz = well_formed_sizes[OF wf]
  note u = iterates_unat[OF wf it]
  have nr: "i_num_restarts it - 1 = of_nat (?n - 1)"
    using it sz(4) by (simp add: iterates_def of_nat_diff)
  have "\<And>j. ?n - 1 < j \<Longrightarrow> j < ?n \<Longrightarrow> 0 \<le> compare (restart_key data j) target"
    by simp
  from Seek_search_wf[OF wf sorted ord it, of 0 "?n - 1" target, OF _ _ _ this] sz(4)
  obtain L where
    search: "Seek_search compare it target 0 (i_num_restarts it - 1) =
               Some (Inr (Some (of_nat L)))" and
    Ln: "L < ?n" and low: "L = 0 \<or> compare (restart_key data L) target < 0" and
    high: "\<forall>j. L < j \<and> j < ?n \<longrightarrow> 0 \<le> compare (restart_key data j) target"
    by (auto simp: nr)
  have uL: "unat (of_nat L :: u32) = L" using Ln sz(3) by (simp add: unat_of_nat_u32)
  have Lw: "(of_nat L :: u32) < i_num_restarts it"
    using Ln uL by (simp add: word_less_nat_alt u)
  let ?it1 = "it\<lparr>i_key := [], i_restart_index := of_nat L, i_restart_offset := - 1,
                  i_value := Slice (restart_point data L) 0\<rparr>"
  have seek1: "SeekToRestartPoint it (of_nat L) = Inr ?it1"
    using SeekToRestartPoint_wf[OF wf it Lw] by (simp only: uL)
  from restart_entry[OF wf es Ln] obtain xs e ys where
    split: "es = xs @ e # ys" and off: "e_offset e = restart_point data L" and
    ch: "chain data ?R (restart_point data L) [] (e # ys)" and
    key: "restart_key data L = e_key e" by blast
  have it1: "iterates data ?it1" using it by (simp add: iterates_def)
  have neo1: "NextEntryOffset ?it1 = Inr (of_nat (restart_point data L))"
    by (simp add: NextEntryOffset_def)
  have ch1: "chain data ?R (restart_point data L) (i_key ?it1) (e # ys)" using ch by simp
  have ri1: "i_restart_index ?it1 < i_num_restarts ?it1" using Lw by simp
  define found where "found = find (\<lambda>e. 0 \<le> compare (e_key e) target) (e # ys)"
  from Seek_scan_chain[OF wf it1 neo1 ch1 ri1, of compare target] obtain it' where
    scan: "Seek_scan compare ?it1 target = Inr it'" and
    it': "iterates data it'" and
    st: "i_status it' = i_status ?it1" and
    res: "case found of
            None \<Rightarrow> \<not> Valid it'
          | Some e \<Rightarrow> positioned it' e \<and> Valid it' \<and>
              i_restart_index it' < i_num_restarts it'"
    unfolding found_def by blast
  have below: "\<not> 0 \<le> compare (e_key x) target" if "x \<in> set xs" for x
    using before_restart_smaller[OF wf sorted ord es[unfolded split] off key low that] by simp
  have "find (\<lambda>e. 0 \<le> compare (e_key e) target) es = found"
    unfolding split found_def using below by (rule find_append_none)
  with res have res': "case find (\<lambda>e. 0 \<le> compare (e_key e) target) es of
         None \<Rightarrow> \<not> Valid it'
       | Some e \<Rightarrow> Valid it' \<and> positioned it' e \<and>
           i_restart_index it' < i_num_restarts it'"
    by (cases found) simp_all
  have "Seek compare it target = Some (Inr it')"
    by (simp add: Seek_def search seek1 scan)
  moreover have "i_status it' = i_status it" using st by simp
  ultimately show ?thesis using search Ln low high res' it' by blast
qed

text \<open>
  C1, as the claim states it, fails in its account of the binary search: the search does
  not end on the largest restart index whose key is \<open>\<le> t\<close>. It compares with
  \<open>Compare(mid_key, target) < 0\<close>, so a restart point whose key equals the target is
  passed over. In the block of scenario S2 the key of restart point 1 is \<open>k10\<close>; the
  search for \<open>k10\<close> ends on restart index 0, and \<^verbatim>\<open>Seek\<close> reaches \<open>k10\<close> by scanning
  from offset 0, as its \<open>restart_index = 0\<close> and \<open>restart_offset = 3\<close> show.
\<close>

theorem Seek_search_skips_equal_key:
  "Seek_search bytewise iter_S2 [107, 49, 48] 0 (i_num_restarts iter_S2 - 1) =
     Some (Inr (Some 0)) \<and>
   restart_key block_S2 1 = [107, 49, 48] \<and>
   bytewise (restart_key block_S2 1) [107, 49, 48] \<le> 0 \<and>
   Seek bytewise iter_S2 [107, 49, 48] =
     Some (Inr (iter_S2\<lparr>i_current := 17, i_restart_index := 0, i_restart_offset := 3,
                        i_key := [107, 49, 48], i_value := Slice 23 1\<rparr>))"
  by code_simp

text \<open>
  C1, amended: for every well-formed block (it has at least one entry) whose keys do not
  decrease under the comparator, a total order, for every iterator over it and every
  probe \<open>t\<close>: the binary search of \<^verbatim>\<open>Seek\<close> returns the largest restart index \<open>L\<close>
  whose key is \<open>< t\<close>, or 0 when there is none, every later restart point having a key
  \<open>\<ge> t\<close>; and \<^verbatim>\<open>Seek\<close>, scanning forward from there, returns with the status
  unchanged (ok for an iterator that was ok), positioned on the first entry of the block
  whose key is \<open>\<ge> t\<close>, which is the smallest such entry as the keys do not decrease, or
  invalid when the block has no such entry.
\<close>

theorem Seek_first_not_below:
  assumes wf: "well_formed data" and sorted: "sorted_block compare data"
    and ord: "total_order compare" and it: "iterates data it"
    and es: "block_entries data = Some es"
  shows "\<exists>L it'.
      Seek_search compare it target 0 (i_num_restarts it - 1) = Some (Inr (Some (of_nat L))) \<and>
      L < block_num_restarts data \<and>
      (L = 0 \<or> compare (restart_key data L) target < 0) \<and>
      (\<forall>j. L < j \<and> j < block_num_restarts data \<longrightarrow>
          0 \<le> compare (restart_key data j) target) \<and>
      Seek compare it target = Some (Inr it') \<and> i_status it' = i_status it \<and>
      (case find (\<lambda>e. 0 \<le> compare (e_key e) target) es of
         None \<Rightarrow> \<not> Valid it'
       | Some e \<Rightarrow> Valid it' \<and> positioned it' e)"
proof -
  from Seek_well_formed[OF wf sorted ord it es, of target] obtain L it' where
    search: "Seek_search compare it target 0 (i_num_restarts it - 1) =
               Some (Inr (Some (of_nat L)))" and
    Ln: "L < block_num_restarts data" and
    low: "L = 0 \<or> compare (restart_key data L) target < 0" and
    high: "\<forall>j. L < j \<and> j < block_num_restarts data \<longrightarrow>
          0 \<le> compare (restart_key data j) target" and
    seek: "Seek compare it target = Some (Inr it')" and
    st: "i_status it' = i_status it" and
    res: "case find (\<lambda>e. 0 \<le> compare (e_key e) target) es of
         None \<Rightarrow> \<not> Valid it'
       | Some e \<Rightarrow> Valid it' \<and> positioned it' e \<and>
           i_restart_index it' < i_num_restarts it'"
    by blast
  from res have "case find (\<lambda>e. 0 \<le> compare (e_key e) target) es of
         None \<Rightarrow> \<not> Valid it'
       | Some e \<Rightarrow> Valid it' \<and> positioned it' e"
    by (cases "find (\<lambda>e. 0 \<le> compare (e_key e) target) es") simp_all
  with search Ln low high seek st show ?thesis by blast
qed

theorem Seek_first_not_below_witness:
  "well_formed block_S2 \<and> sorted_block bytewise block_S2 \<and> total_order bytewise \<and>
   iterates block_S2 iter_S2 \<and> block_entries block_S2 = Some entries_S2 \<and>
   Seek bytewise iter_S2 [107, 48, 57] =
     Some (Inr (iter_S2\<lparr>i_current := 17, i_restart_index := 0, i_restart_offset := 3,
                        i_key := [107, 49, 48], i_value := Slice 23 1\<rparr>)) \<and>
   find (\<lambda>e. 0 \<le> bytewise (e_key e) [107, 48, 57]) entries_S2 = Some (entries_S2 ! 3) \<and>
   Valid (iter_S2\<lparr>i_current := 17, i_restart_index := 0, i_restart_offset := 3,
                  i_key := [107, 49, 48], i_value := Slice 23 1\<rparr>) \<and>
   positioned (iter_S2\<lparr>i_current := 17, i_restart_index := 0, i_restart_offset := 3,
                       i_key := [107, 49, 48], i_value := Slice 23 1\<rparr>) (entries_S2 ! 3)"
proof -
  let ?it = "iter_S2\<lparr>i_current := 17, i_restart_index := 0, i_restart_offset := 3,
                        i_key := [107, 49, 48], i_value := Slice 23 1\<rparr>"
  have seek: "Seek bytewise iter_S2 [107, 48, 57] = Some (Inr ?it)"
    by code_simp
  have found: "find (\<lambda>e. 0 \<le> bytewise (e_key e) [107, 48, 57]) entries_S2 =
      Some (entries_S2 ! 3)"
    by code_simp
  from Seek_first_not_below[OF well_formed_S2 sorted_block_S2 total_order_bytewise
      iterates_S2 block_entries_S2, of "[107, 48, 57]"]
  obtain it' where "Seek bytewise iter_S2 [107, 48, 57] = Some (Inr it')"
    and "case find (\<lambda>e. 0 \<le> bytewise (e_key e) [107, 48, 57]) entries_S2 of
         None \<Rightarrow> \<not> Valid it'
       | Some e \<Rightarrow> Valid it' \<and> positioned it' e"
    by blast
  with seek found have "Valid ?it \<and> positioned ?it (entries_S2 ! 3)"
    by simp
  with seek found well_formed_S2 sorted_block_S2 total_order_bytewise iterates_S2
    block_entries_S2
  show ?thesis by blast
qed

section \<open>Next and Prev\<close>

lemma chain_before_end:
  "chain data limit off prev (xs @ e # ys) \<Longrightarrow> x \<in> set xs \<Longrightarrow> entry_end x \<le> e_offset e"
proof (induction xs arbitrary: off prev)
  case Nil
  then show ?case by simp
next
  case (Cons a xs)
  from Cons.prems(1) have rest: "chain data limit (entry_end a) (e_key a) (xs @ e # ys)"
    by simp
  show ?case
  proof (cases "x = a")
    case True
    from chain_offsets[OF rest, of e] show ?thesis using True by simp
  next
    case False
    with Cons.prems(2) have "x \<in> set xs" by simp
    from Cons.IH[OF rest this] show ?thesis .
  qed
qed

lemma of_nat_le_u32: "b < 2 ^ 32 \<Longrightarrow> a < 2 ^ 32 \<Longrightarrow> ((of_nat a :: u32) \<le> of_nat b) = (a \<le> b)"
  by (simp add: word_le_nat_alt unat_of_nat_u32)

lemma restart_point_small: "restart_point data j < 2 ^ 32"
proof -
  have "unat w < 2 ^ 32" for w :: u32
    using unsigned_less[of w] by simp
  then show ?thesis unfolding restart_point_def by simp
qed

lemma Prev_rewind_wf:
  assumes wf: "well_formed data" and pos: "0 < orig" and small: "orig < 2 ^ 32"
  shows "iterates data it \<Longrightarrow> i_restart_index it < i_num_restarts it \<Longrightarrow>
    original = of_nat orig \<Longrightarrow>
    \<exists>q. Prev_rewind it original = Inr (True, it\<lparr>i_restart_index := q\<rparr>) \<and>
        q < i_num_restarts it \<and> restart_point data (unat q) < orig"
proof (induction it original rule: Prev_rewind.induct)
  case (1 it original)
  let ?rp = "restart_point data (unat (i_restart_index it))"
  have g: "GetRestartPoint it (i_restart_index it) = Inr (of_nat ?rp)"
    by (rule GetRestartPoint_wf[OF wf "1.prems"(1,2)])
  have cmp: "(original \<le> (of_nat ?rp :: u32)) = (orig \<le> ?rp)"
    unfolding "1.prems"(3) using restart_point_small small by (rule of_nat_le_u32)
  show ?case
  proof (cases "orig \<le> ?rp")
    case False
    then have "Prev_rewind it original = Inr (True, it)"
      using g cmp by (subst Prev_rewind.simps) simp
    moreover have "it = it\<lparr>i_restart_index := i_restart_index it\<rparr>" by simp
    ultimately show ?thesis using False "1.prems"(2)
      by (metis not_le_imp_less)
  next
    case True
    have nz: "i_restart_index it \<noteq> 0"
    proof
      assume "i_restart_index it = 0"
      then have "?rp = 0" using wf by (simp add: well_formed_def)
      with True pos show False by simp
    qed
    let ?it1 = "it\<lparr>i_restart_index := i_restart_index it - 1\<rparr>"
    have step: "Prev_rewind it original = Prev_rewind ?it1 original"
      using g cmp True nz by (subst Prev_rewind.simps) simp
    have it1: "iterates data ?it1" using "1.prems"(1) by (simp add: iterates_def)
    have "unat (i_restart_index it - 1) < unat (i_restart_index it)"
      using nz by (simp add: unat_minus_one unat_gt_0 word_neq_0_conv)
    then have "i_restart_index it - 1 < i_restart_index it"
      by (simp only: word_less_nat_alt)
    then have ri1: "i_restart_index ?it1 < i_num_restarts ?it1"
      using "1.prems"(2) by simp
    have tr: "original \<le> (of_nat ?rp :: u32)" using cmp True by simp
    from "1.IH"[OF g tr nz it1 ri1 "1.prems"(3)] obtain q where
      "Prev_rewind ?it1 original = Inr (True, ?it1\<lparr>i_restart_index := q\<rparr>)"
      "q < i_num_restarts ?it1" "restart_point data (unat q) < orig" by blast
    with step show ?thesis by auto
  qed
qed

lemma Prev_scan_chain:
  assumes wf: "well_formed data"
  shows "iterates data it \<Longrightarrow> NextEntryOffset it = Inr (of_nat off) \<Longrightarrow>
    chain data (block_restarts data) off (i_key it) (xs @ e # ys) \<Longrightarrow>
    i_restart_index it < i_num_restarts it \<Longrightarrow>
    \<exists>it'. Prev_scan it (of_nat (entry_end e)) = Inr it' \<and> positioned it' e \<and>
      iterates data it' \<and> i_status it' = i_status it \<and>
      i_restart_index it' < i_num_restarts it'"
proof (induction xs arbitrary: it off)
  case Nil
  then have e: "entry_at data (block_restarts data) off (i_key it) = Some e" by simp
  from ParseNextKey_entry[OF wf Nil.prems(1,2) e Nil.prems(4)] obtain it1 where
    parse: "ParseNextKey it = Inr (True, it1)" and pos: "positioned it1 e" and
    it1: "iterates data it1" and st: "i_status it1 = i_status it" and
    ri1: "i_restart_index it1 < i_num_restarts it1" and
    neo1: "NextEntryOffset it1 = Inr (of_nat (entry_end e))"
    by blast
  have "Prev_scan it (of_nat (entry_end e)) = Inr it1"
    using parse neo1 by (subst Prev_scan.simps) simp
  with pos it1 st ri1 show ?case by blast
next
  case (Cons x xs)
  from Cons.prems(3) have x: "entry_at data (block_restarts data) off (i_key it) = Some x"
    and rest: "chain data (block_restarts data) (entry_end x) (e_key x) (xs @ e # ys)"
    by simp_all
  from ParseNextKey_entry[OF wf Cons.prems(1,2) x Cons.prems(4)] obtain it1 where
    parse: "ParseNextKey it = Inr (True, it1)" and pos: "positioned it1 x" and
    it1: "iterates data it1" and st: "i_status it1 = i_status it" and
    ri1: "i_restart_index it1 < i_num_restarts it1" and
    neo1: "NextEntryOffset it1 = Inr (of_nat (entry_end x))"
    by blast
  have key1: "i_key it1 = e_key x" using pos by (simp add: positioned_def)
  from chain_offsets[OF rest, of e]
  have "entry_end x \<le> e_offset e" "e_offset e < entry_end e"
    "entry_end e \<le> block_restarts data" by simp_all
  then have "entry_end x < entry_end e" and "entry_end e < 2 ^ 32"
    using well_formed_sizes(2)[OF wf] by simp_all
  then have lt: "(of_nat (entry_end x) :: u32) < of_nat (entry_end e)"
    by (rule of_nat_less_u32)
  have step: "Prev_scan it (of_nat (entry_end e)) = Prev_scan it1 (of_nat (entry_end e))"
    using parse neo1 lt by (subst Prev_scan.simps) simp
  from rest key1
  have "chain data (block_restarts data) (entry_end x) (i_key it1) (xs @ e # ys)" by simp
  from Cons.IH[OF it1 neo1 this ri1] step st show ?case by simp
qed

lemma positioned_NextEntryOffset:
  "positioned it e \<Longrightarrow> NextEntryOffset it = Inr (of_nat (entry_end e))"
  by (simp add: positioned_def NextEntryOffset_def entry_end_def)

lemma Next_positioned:
  assumes wf: "well_formed data" and it: "iterates data it"
    and es: "block_entries data = Some (xs @ a # b # ys)"
    and pos: "positioned it a" and ri: "i_restart_index it < i_num_restarts it"
  shows "\<exists>it1. Next it = Inr it1 \<and> positioned it1 b \<and> Valid it1 \<and> iterates data it1 \<and>
      i_status it1 = i_status it \<and> i_restart_index it1 < i_num_restarts it1"
proof -
  let ?R = "block_restarts data"
  from well_formed_chain[OF wf es] have ch: "chain data ?R 0 [] (xs @ a # b # ys)" .
  from chain_append[OF ch] obtain off' prev' where
    a: "entry_at data ?R off' prev' = Some a" and
    cha: "chain data ?R off' prev' (a # b # ys)" by blast
  from cha have b: "entry_at data ?R (entry_end a) (e_key a) = Some b" by simp
  from entry_at_bounds[OF a] have "e_offset a < ?R" by simp
  from positioned_Valid[OF wf it pos this] have v: "Valid it" .
  have key: "i_key it = e_key a" using pos by (simp add: positioned_def)
  from b key have b': "entry_at data ?R (entry_end a) (i_key it) = Some b" by simp
  from ParseNextKey_entry[OF wf it positioned_NextEntryOffset[OF pos] b' ri] obtain it1 where
    parse: "ParseNextKey it = Inr (True, it1)" and pos1: "positioned it1 b" and
    it1: "iterates data it1" and st: "i_status it1 = i_status it" and
    ri1: "i_restart_index it1 < i_num_restarts it1"
    by blast
  from entry_at_bounds[OF b] have "e_offset b < ?R" by simp
  from positioned_Valid[OF wf it1 pos1 this] have v1: "Valid it1" .
  have "Next it = Inr it1" using v parse by (simp add: Next_def)
  with pos1 v1 it1 st ri1 show ?thesis by blast
qed

lemma Prev_positioned:
  assumes wf: "well_formed data" and it: "iterates data it"
    and es: "block_entries data = Some (xs @ a # b # ys)"
    and pos: "positioned it b" and ri: "i_restart_index it < i_num_restarts it"
  shows "\<exists>it2. Prev it = Inr it2 \<and> positioned it2 a \<and> Valid it2 \<and> iterates data it2 \<and>
      i_status it2 = i_status it \<and> i_restart_index it2 < i_num_restarts it2"
proof -
  let ?R = "block_restarts data"
  note u = iterates_unat[OF wf it]
  from well_formed_chain[OF wf es] have ch: "chain data ?R 0 [] (xs @ a # b # ys)" .
  from chain_append[OF ch] obtain off' prev' where
    a: "entry_at data ?R off' prev' = Some a" and
    cha: "chain data ?R off' prev' (a # b # ys)" by blast
  from cha have b: "entry_at data ?R (entry_end a) (e_key a) = Some b" by simp
  from entry_at_bounds[OF b] have offb: "e_offset b = entry_end a" and bR: "e_offset b < ?R"
    by simp_all
  from entry_at_bounds[OF a] have aR: "e_offset a < ?R" and a_lt: "e_offset a < entry_end a"
    by (simp_all add: entry_end_def)
  from positioned_Valid[OF wf it pos bR] have v: "Valid it" .
  have cur: "i_current it = of_nat (entry_end a)" using pos offb by (simp add: positioned_def)
  have pos_end: "0 < entry_end a" using a_lt by simp
  have small: "entry_end a < 2 ^ 32" using bR offb well_formed_sizes(2)[OF wf] by simp
  from Prev_rewind_wf[OF wf pos_end small it ri cur] obtain q where
    rew: "Prev_rewind it (i_current it) = Inr (True, it\<lparr>i_restart_index := q\<rparr>)" and
    qn: "q < i_num_restarts it" and rp: "restart_point data (unat q) < entry_end a"
    by blast
  let ?it1 = "it\<lparr>i_restart_index := q\<rparr>"
  have it1: "iterates data ?it1" using it by (simp add: iterates_def)
  have qn1: "q < i_num_restarts ?it1" using qn by simp
  let ?it2 = "?it1\<lparr>i_key := [], i_restart_index := q, i_restart_offset := - 1,
                   i_value := Slice (restart_point data (unat q)) 0\<rparr>"
  have seek: "SeekToRestartPoint ?it1 (i_restart_index ?it1) = Inr ?it2"
    using SeekToRestartPoint_wf[OF wf it1 qn1] by simp
  have it2: "iterates data ?it2" using it by (simp add: iterates_def)
  have neo2: "NextEntryOffset ?it2 = Inr (of_nat (restart_point data (unat q)))"
    by (simp add: NextEntryOffset_def)
  have ri2: "i_restart_index ?it2 < i_num_restarts ?it2" using qn by simp
  have "unat q < block_num_restarts data" using qn by (simp add: word_less_nat_alt u)
  from restart_entry[OF wf es this] obtain xs' e' ys' where
    split: "xs @ a # b # ys = xs' @ e' # ys'" and
    off': "e_offset e' = restart_point data (unat q)" and
    che: "chain data ?R (restart_point data (unat q)) [] (e' # ys')" by blast
  have "a \<in> set (xs' @ e' # ys')" using split[symmetric] by simp
  moreover have "a \<notin> set xs'"
  proof
    assume "a \<in> set xs'"
    from chain_before_end[OF ch[unfolded split] this] off' rp show False by simp
  qed
  ultimately have "a \<in> set (e' # ys')" by auto
  from split_list[OF this] obtain zs ws where zs: "e' # ys' = zs @ a # ws" by blast
  from che zs have "chain data ?R (restart_point data (unat q)) (i_key ?it2) (zs @ a # ws)"
    by simp
  from Prev_scan_chain[OF wf it2 neo2 this ri2] obtain it' where
    scan: "Prev_scan ?it2 (of_nat (entry_end a)) = Inr it'" and pos': "positioned it' a" and
    it': "iterates data it'" and st: "i_status it' = i_status ?it2" and
    ri': "i_restart_index it' < i_num_restarts it'"
    by blast
  from positioned_Valid[OF wf it' pos' aR] have v': "Valid it'" .
  have "Prev it = Inr it'"
    using v rew seek scan cur by (simp add: Prev_def Let_def)
  moreover have "i_status it' = i_status it" using st by simp
  ultimately show ?thesis using pos' v' it' ri' by blast
qed


text \<open>
  C7. For every well-formed block and every iterator positioned on an entry that is not
  the last one (its offset, key and value are those of entry \<open>i\<close>, and its restart
  index is one of the block's, as every positioning operation leaves it): \<^verbatim>\<open>Next\<close>
  moves to entry \<open>i + 1\<close>, and \<^verbatim>\<open>Prev\<close> after it returns to entry \<open>i\<close>, with the
  current offset, the key and the value the iterator had before.
\<close>

theorem Next_then_Prev:
  assumes wf: "well_formed data" and it: "iterates data it"
    and es: "block_entries data = Some es"
    and i: "Suc i < length es"
    and pos: "positioned it (es ! i)" and ri: "i_restart_index it < i_num_restarts it"
  shows "\<exists>it1 it2. Next it = Inr it1 \<and> Valid it1 \<and> positioned it1 (es ! Suc i) \<and>
      Prev it1 = Inr it2 \<and> Valid it2 \<and> positioned it2 (es ! i) \<and>
      i_current it2 = i_current it \<and> i_key it2 = i_key it \<and> i_value it2 = i_value it"
proof -
  have "es = take i es @ es ! i # drop (Suc i) es"
    using i by (simp add: id_take_nth_drop)
  moreover have "drop (Suc i) es = es ! Suc i # drop (Suc (Suc i)) es"
    using i by (simp add: Cons_nth_drop_Suc)
  ultimately have split: "es = take i es @ es ! i # es ! Suc i # drop (Suc (Suc i)) es"
    by simp
  from es split
  have es': "block_entries data = Some (take i es @ es ! i # es ! Suc i # drop (Suc (Suc i)) es)"
    by simp
  from Next_positioned[OF wf it es' pos ri] obtain it1 where
    n: "Next it = Inr it1" and pos1: "positioned it1 (es ! Suc i)" and v1: "Valid it1" and
    it1: "iterates data it1" and ri1: "i_restart_index it1 < i_num_restarts it1"
    by blast
  from Prev_positioned[OF wf it1 es' pos1 ri1] obtain it2 where
    p: "Prev it1 = Inr it2" and pos2: "positioned it2 (es ! i)" and v2: "Valid it2"
    by blast
  from pos pos2 have "i_current it2 = i_current it \<and> i_key it2 = i_key it \<and>
      i_value it2 = i_value it"
    by (simp add: positioned_def)
  with n pos1 v1 p pos2 v2 show ?thesis by blast
qed

text \<open>In the block of scenario S2, from \<open>k03\<close> to the restart point \<open>k10\<close> and back.\<close>

theorem Next_then_Prev_witness:
  "well_formed block_S2 \<and> block_entries block_S2 = Some entries_S2 \<and>
   Suc 2 < length entries_S2 \<and>
   run bytewise iter_S2 [OpSeekToFirst, OpNext, OpNext] =
     Some (Inr (iter_S2\<lparr>i_current := 12, i_restart_index := 0, i_restart_offset := 2,
                        i_key := [107, 48, 51], i_value := Slice 16 1\<rparr>)) \<and>
   iterates block_S2
     (iter_S2\<lparr>i_current := 12, i_restart_index := 0, i_restart_offset := 2,
              i_key := [107, 48, 51], i_value := Slice 16 1\<rparr>) \<and>
   positioned
     (iter_S2\<lparr>i_current := 12, i_restart_index := 0, i_restart_offset := 2,
              i_key := [107, 48, 51], i_value := Slice 16 1\<rparr>) (entries_S2 ! 2) \<and>
   Next (iter_S2\<lparr>i_current := 12, i_restart_index := 0, i_restart_offset := 2,
                 i_key := [107, 48, 51], i_value := Slice 16 1\<rparr>) =
     Inr (iter_S2\<lparr>i_current := 17, i_restart_index := 0, i_restart_offset := 3,
                   i_key := [107, 49, 48], i_value := Slice 23 1\<rparr>) \<and>
   Prev (iter_S2\<lparr>i_current := 17, i_restart_index := 0, i_restart_offset := 3,
                 i_key := [107, 49, 48], i_value := Slice 23 1\<rparr>) =
     Inr (iter_S2\<lparr>i_current := 12, i_restart_index := 0, i_restart_offset := 2,
                   i_key := [107, 48, 51], i_value := Slice 16 1\<rparr>)"
proof -
  let ?k03 = "iter_S2\<lparr>i_current := 12, i_restart_index := 0, i_restart_offset := 2,
                      i_key := [107, 48, 51], i_value := Slice 16 1\<rparr>"
  let ?k10 = "iter_S2\<lparr>i_current := 17, i_restart_index := 0, i_restart_offset := 3,
                      i_key := [107, 49, 48], i_value := Slice 23 1\<rparr>"
  have reach: "run bytewise iter_S2 [OpSeekToFirst, OpNext, OpNext] = Some (Inr ?k03)"
    by code_simp
  have it: "iterates block_S2 ?k03" by code_simp
  have i: "Suc 2 < length entries_S2" by (simp add: entries_S2_def)
  have pos: "positioned ?k03 (entries_S2 ! 2)" by code_simp
  have ri: "i_restart_index ?k03 < i_num_restarts ?k03" by (simp add: iter_S2_def)
  have n: "Next ?k03 = Inr ?k10" by code_simp
  from Next_then_Prev[OF well_formed_S2 it block_entries_S2 i pos ri] n
  obtain it2 where "Prev ?k10 = Inr it2" and "i_current it2 = i_current ?k03"
    and "i_key it2 = i_key ?k03" and "i_value it2 = i_value ?k03"
    by auto
  moreover have "Prev ?k10 = Inr ?k03" by code_simp
  ultimately show ?thesis
    using well_formed_S2 block_entries_S2 i reach it pos n by blast
qed

section \<open>Corruption is detected and the status stays\<close>

text \<open>
  \<^verbatim>\<open>ParseNextKey\<close> changes the status only by calling \<^verbatim>\<open>CorruptionError\<close>, and then
  returns false: every loop around it stops there.
\<close>

lemma corrupted_CorruptionError: "corrupted (CorruptionError it)"
  by (simp add: corrupted_def CorruptionError_def Valid_def)

lemma ParseNextKey_detects:
  assumes "ParseNextKey it = Inr (ok, it')"
  shows "i_status it' = i_status it \<or> \<not> ok \<and> corrupted it'"
proof (cases ok)
  case True
  with assms have "ParseNextKey it = Inr (True, it')" by simp
  from ParseNextKey_True[OF this] obtain cur and rest :: bytes
    and shared non_shared value_length :: u32 where
    "it' = it\<lparr>i_current := cur,
               i_key := take (unat shared) (i_key it) @
                        take (unat non_shared)
                          (drop (unat (i_restarts it) - length rest) (i_data it)),
               i_value := Slice (unat (i_restarts it) - length rest + unat non_shared)
                            (unat value_length),
               i_restart_index := i_restart_index it',
               i_restart_offset := i_restart_offset it'\<rparr>"
    by blast
  then have "i_status it' = i_status it" by (cases it') (cases it, auto)
  then show ?thesis by simp
next
  case False
  with assms show ?thesis
    by (auto simp: ParseNextKey_def Let_def corrupted_CorruptionError
        split: sum.splits if_splits option.splits)
qed

text \<open>A bad entry is detected: \<^verbatim>\<open>Next\<close> onto it returns from \<^verbatim>\<open>CorruptionError\<close>.\<close>

lemma ParseNextKey_bad_next:
  assumes "bad_next it"
  shows "\<exists>it1. ParseNextKey it = Inr (False, CorruptionError it1)"
  using assms
  by (auto simp: bad_next_def ParseNextKey_def Let_def
      split: sum.splits option.splits)

lemma Next_bad_next:
  assumes "Valid it" and "bad_next it"
  shows "\<exists>it1. Next it = Inr (CorruptionError it1)"
proof -
  from ParseNextKey_bad_next[OF assms(2)] obtain it1 where
    "ParseNextKey it = Inr (False, CorruptionError it1)" by blast
  with assms(1) have "Next it = Inr (CorruptionError it1)" by (simp add: Next_def)
  then show ?thesis by blast
qed

lemma SeekToRestartPoint_status:
  "SeekToRestartPoint it index = Inr it' \<Longrightarrow> i_status it' = i_status it"
  by (auto simp: SeekToRestartPoint_def split: sum.splits)

lemma Prev_rewind_status:
  "Prev_rewind it original = Inr (found, it') \<Longrightarrow> i_status it' = i_status it"
proof (induction it original rule: Prev_rewind.induct)
  case (1 it original)
  from "1.prems" obtain offset where
    g: "GetRestartPoint it (i_restart_index it) = Inr offset"
    by (subst (asm) Prev_rewind.simps) (auto split: sum.splits)
  show ?case
  proof (cases "original \<le> offset")
    case False
    with "1.prems" g show ?thesis
      by (subst (asm) Prev_rewind.simps) simp
  next
    case le: True
    show ?thesis
    proof (cases "i_restart_index it = 0")
      case True
      with "1.prems" g le show ?thesis
        by (subst (asm) Prev_rewind.simps) auto
    next
      case False
      with "1.prems" g le
      have "Prev_rewind (it\<lparr>i_restart_index := i_restart_index it - 1\<rparr>) original =
          Inr (found, it')"
        by (subst (asm) Prev_rewind.simps) simp
      from "1.IH"[OF g le False this] show ?thesis by simp
    qed
  qed
qed

lemma Prev_scan_detects:
  "Prev_scan it original = Inr it' \<Longrightarrow> i_status it' = i_status it \<or> corrupted it'"
proof (induction it original rule: Prev_scan.induct)
  case (1 it original)
  from "1.prems"(1) obtain ok it1 where p: "ParseNextKey it = Inr (ok, it1)"
    by (subst (asm) Prev_scan.simps) (auto split: sum.splits)
  note d = ParseNextKey_detects[OF p]
  show ?case
  proof (cases ok)
    case False
    with "1.prems"(1) p have "it' = it1"
      by (subst (asm) Prev_scan.simps) simp
    with d show ?thesis by auto
  next
    case True
    with d have st1: "i_status it1 = i_status it" by simp
    from True "1.prems"(1) p obtain next_entry where n: "NextEntryOffset it1 = Inr next_entry"
      by (subst (asm) Prev_scan.simps) (auto split: sum.splits)
    show ?thesis
    proof (cases "next_entry < original")
      case False
      with "1.prems"(1) p True n have "it' = it1"
        by (subst (asm) Prev_scan.simps) simp
      with st1 show ?thesis by simp
    next
      case lt: True
      with "1.prems"(1) p True n have "Prev_scan it1 original = Inr it'"
        by (subst (asm) Prev_scan.simps) simp
      from "1.IH"[OF p refl _ n lt this] True st1 show ?thesis by simp
    qed
  qed
qed

lemma Seek_scan_detects:
  "Seek_scan compare it target = Inr it' \<Longrightarrow> i_status it' = i_status it \<or> corrupted it'"
proof (induction compare it target rule: Seek_scan.induct)
  case (1 compare it target)
  from "1.prems"(1) obtain ok it1 where p: "ParseNextKey it = Inr (ok, it1)"
    by (subst (asm) Seek_scan.simps) (auto split: sum.splits)
  note d = ParseNextKey_detects[OF p]
  show ?case
  proof (cases "ok \<and> \<not> 0 \<le> compare (i_key it1) target")
    case False
    with "1.prems"(1) p have "it' = it1"
      by (subst (asm) Seek_scan.simps) (auto split: if_splits)
    with d show ?thesis by auto
  next
    case True
    with d have st1: "i_status it1 = i_status it" by simp
    from True "1.prems"(1) p have "Seek_scan compare it1 target = Inr it'"
      by (subst (asm) Seek_scan.simps) simp
    from "1.IH"[OF p refl _ _ this] True st1 show ?thesis by simp
  qed
qed

lemma SeekToLast_scan_detects:
  "SeekToLast_scan it = Inr it' \<Longrightarrow> i_status it' = i_status it \<or> corrupted it'"
proof (induction it rule: SeekToLast_scan.induct)
  case (1 it)
  from "1.prems"(1) obtain ok it1 where p: "ParseNextKey it = Inr (ok, it1)"
    by (subst (asm) SeekToLast_scan.simps) (auto split: sum.splits)
  note d = ParseNextKey_detects[OF p]
  show ?case
  proof (cases ok)
    case False
    with "1.prems"(1) p have "it' = it1"
      by (subst (asm) SeekToLast_scan.simps) simp
    with d show ?thesis by auto
  next
    case True
    with d have st1: "i_status it1 = i_status it" by simp
    from True "1.prems"(1) p obtain next_entry where n: "NextEntryOffset it1 = Inr next_entry"
      by (subst (asm) SeekToLast_scan.simps) (auto split: sum.splits)
    show ?thesis
    proof (cases "next_entry < i_restarts it1")
      case False
      with "1.prems"(1) p True n have "it' = it1"
        by (subst (asm) SeekToLast_scan.simps) simp
      with st1 show ?thesis by simp
    next
      case lt: True
      with "1.prems"(1) p True n have "SeekToLast_scan it1 = Inr it'"
        by (subst (asm) SeekToLast_scan.simps) simp
      from "1.IH"[OF p refl _ n lt this] True st1 show ?thesis by simp
    qed
  qed
qed

text \<open>
  Every operation that returns leaves the status as it was, or leaves the iterator in the
  state of \<^verbatim>\<open>CorruptionError\<close>.
\<close>

lemma apply_operation_detects:
  assumes "apply_operation compare it op = Some (Inr it')"
  shows "i_status it' = i_status it \<or> corrupted it'"
proof (cases op)
  case OpSeekToFirst
  with assms obtain it1 ok where
    s: "SeekToRestartPoint it 0 = Inr it1" and p: "ParseNextKey it1 = Inr (ok, it')"
    by (auto simp: SeekToFirst_def split: sum.splits)
  from ParseNextKey_detects[OF p] SeekToRestartPoint_status[OF s] show ?thesis by auto
next
  case OpSeekToLast
  with assms obtain it1 where
    s: "SeekToRestartPoint it (i_num_restarts it - 1) = Inr it1" and
    l: "SeekToLast_scan it1 = Inr it'"
    by (auto simp: SeekToLast_def split: sum.splits)
  from SeekToLast_scan_detects[OF l] SeekToRestartPoint_status[OF s] show ?thesis by auto
next
  case (OpSeek target)
  with assms have seek: "Seek compare it target = Some (Inr it')" by simp
  show ?thesis
  proof (cases "Seek_search compare it target 0 (i_num_restarts it - 1)")
    case None
    with seek show ?thesis by (simp add: Seek_def)
  next
    case (Some res)
    show ?thesis
    proof (cases res)
      case (Inl e)
      with seek Some show ?thesis by (simp add: Seek_def)
    next
      case (Inr found)
      show ?thesis
      proof (cases found)
        case None
        with seek Some Inr have "it' = CorruptionError it" by (simp add: Seek_def)
        then show ?thesis by (simp add: corrupted_CorruptionError)
      next
        case (Some left)
        with seek \<open>Seek_search compare it target 0 (i_num_restarts it - 1) = Some res\<close> Inr
        obtain it1 where s: "SeekToRestartPoint it left = Inr it1" and
          sc: "Seek_scan compare it1 target = Inr it'"
          by (auto simp: Seek_def split: sum.splits)
        from Seek_scan_detects[OF sc] SeekToRestartPoint_status[OF s] show ?thesis by auto
      qed
    qed
  qed
next
  case OpNext
  with assms obtain ok where p: "ParseNextKey it = Inr (ok, it')"
    by (auto simp: Next_def split: if_splits sum.splits)
  from ParseNextKey_detects[OF p] show ?thesis by auto
next
  case OpPrev
  with assms have prev: "Prev it = Inr it'" by simp
  then obtain found it1 where r: "Prev_rewind it (i_current it) = Inr (found, it1)"
    by (auto simp: Prev_def Let_def split: if_splits sum.splits)
  note st1 = Prev_rewind_status[OF r]
  show ?thesis
  proof (cases found)
    case False
    with prev r have "it' = it1"
      by (auto simp: Prev_def Let_def split: if_splits)
    with st1 show ?thesis by simp
  next
    case True
    with prev r obtain it2 where
      s: "SeekToRestartPoint it1 (i_restart_index it1) = Inr it2" and
      sc: "Prev_scan it2 (i_current it) = Inr it'"
      by (auto simp: Prev_def Let_def split: if_splits sum.splits)
    from Prev_scan_detects[OF sc] SeekToRestartPoint_status[OF s] st1 show ?thesis by auto
  qed
qed

lemma run_keeps_status:
  "run compare it ops = Some (Inr it') \<Longrightarrow>
   i_status it = Corruption ''bad entry in block'' \<Longrightarrow>
   i_status it' = Corruption ''bad entry in block''"
proof (induction ops arbitrary: it)
  case Nil
  then show ?case by simp
next
  case (Cons op ops)
  from Cons.prems(1) obtain it1 where
    a: "apply_operation compare it op = Some (Inr it1)" and
    r: "run compare it1 ops = Some (Inr it')"
    by (auto split: option.splits sum.splits)
  from apply_operation_detects[OF a] Cons.prems(2)
  have "i_status it1 = Corruption ''bad entry in block''"
    by (auto simp: corrupted_def)
  from Cons.IH[OF r this] show ?case .
qed

text \<open>
  C6, amended. A corruption is detected by an operation that changes the status, or by
  \<^verbatim>\<open>Next\<close> onto a bad entry. The operation that detects it, whichever of
  \<^verbatim>\<open>SeekToFirst\<close>, \<^verbatim>\<open>SeekToLast\<close>, \<^verbatim>\<open>Seek\<close>, \<^verbatim>\<open>Next\<close> and \<^verbatim>\<open>Prev\<close> it is,
  leaves the iterator invalid, its key and value cleared and its status corruption, and
  the status is corruption after every sequence of operations that follows; no operation
  resets it. (The iterator does not stay invalid: a later \<^verbatim>\<open>SeekToFirst\<close>,
  \<^verbatim>\<open>SeekToLast\<close> or \<^verbatim>\<open>Seek\<close> that finds a good entry makes it valid again.)
\<close>

theorem corruption_is_sticky:
  assumes op: "apply_operation compare it op = Some (Inr it1)"
    and detected: "i_status it1 \<noteq> i_status it \<or> op = OpNext \<and> bad_next it"
    and rest: "run compare it1 ops = Some (Inr it')"
  shows "\<not> Valid it1 \<and> i_key it1 = [] \<and> i_value it1 = EmptySlice \<and>
         i_status it1 = Corruption ''bad entry in block'' \<and>
         i_status it' = Corruption ''bad entry in block''"
proof -
  have c: "corrupted it1"
  proof (cases "i_status it1 \<noteq> i_status it")
    case True
    with apply_operation_detects[OF op] show ?thesis by simp
  next
    case False
    with detected have n: "op = OpNext" and b: "bad_next it" by simp_all
    from ParseNextKey_bad_next[OF b] obtain it2 where
      p: "ParseNextKey it = Inr (False, CorruptionError it2)" by blast
    from op n have "Next it = Inr it1" by simp
    with p have "it1 = CorruptionError it2"
      by (simp add: Next_def split: if_splits)
    then show ?thesis by (simp add: corrupted_CorruptionError)
  qed
  then have "i_status it1 = Corruption ''bad entry in block''" by (simp add: corrupted_def)
  from run_keeps_status[OF rest this] c show ?thesis by (simp add: corrupted_def)
qed

theorem corruption_is_sticky_witness:
  "apply_operation bytewise
     (iter_S4\<lparr>i_current := 0, i_restart_index := 0, i_restart_offset := 0,
              i_key := [97, 98, 99], i_value := Slice 6 1\<rparr>) OpNext =
     Some (Inr (iter_S4\<lparr>i_status := Corruption ''bad entry in block''\<rparr>)) \<and>
   i_status (iter_S4\<lparr>i_status := Corruption ''bad entry in block''\<rparr>) \<noteq>
     i_status (iter_S4\<lparr>i_current := 0, i_restart_index := 0, i_restart_offset := 0,
                       i_key := [97, 98, 99], i_value := Slice 6 1\<rparr>) \<and>
   bad_next (iter_S4\<lparr>i_current := 0, i_restart_index := 0, i_restart_offset := 0,
                     i_key := [97, 98, 99], i_value := Slice 6 1\<rparr>) \<and>
   run bytewise (iter_S4\<lparr>i_status := Corruption ''bad entry in block''\<rparr>)
       [OpSeekToFirst, OpNext, OpSeekToLast] =
     Some (Inr (iter_S4\<lparr>i_status := Corruption ''bad entry in block''\<rparr>)) \<and>
   \<not> Valid (iter_S4\<lparr>i_status := Corruption ''bad entry in block''\<rparr>) \<and>
   i_key (iter_S4\<lparr>i_status := Corruption ''bad entry in block''\<rparr>) = [] \<and>
   i_value (iter_S4\<lparr>i_status := Corruption ''bad entry in block''\<rparr>) = EmptySlice"
proof -
  let ?it = "iter_S4\<lparr>i_current := 0, i_restart_index := 0, i_restart_offset := 0,
              i_key := [97, 98, 99], i_value := Slice 6 1\<rparr>"
  let ?it1 = "iter_S4\<lparr>i_status := Corruption ''bad entry in block''\<rparr>"
  have op: "apply_operation bytewise ?it OpNext = Some (Inr ?it1)"
    by code_simp
  have changed: "i_status ?it1 \<noteq> i_status ?it"
    by (simp add: iter_S4_def)
  have bad: "bad_next ?it"
    by code_simp
  have rest: "run bytewise ?it1 [OpSeekToFirst, OpNext, OpSeekToLast] = Some (Inr ?it1)"
    by code_simp
  from changed have "i_status ?it1 \<noteq> i_status ?it \<or> OpNext = OpNext \<and> bad_next ?it" ..
  from corruption_is_sticky[OF op this rest] op changed bad rest show ?thesis by blast
qed

section \<open>Opening a well-formed block\<close>

lemma unat_ucast_u32_u64: "unat (ucast (w::u32) :: u64) = unat w"
proof -
  have "unat w < 2 ^ 32" using unsigned_less[of w] by simp
  then have "unat w < 2 ^ 64" by simp
  then show ?thesis by (simp add: unsigned_ucast_eq take_bit_nat_eq_self)
qed

lemma open_block_well_formed:
  assumes wf: "well_formed data"
  shows "open_block data =
     Inr (BlockIterator
       \<lparr>i_data = data, i_restarts = of_nat (block_restarts data),
        i_num_restarts = of_nat (block_num_restarts data),
        i_current = of_nat (block_restarts data),
        i_restart_index = of_nat (block_num_restarts data), i_restart_offset = 0,
        i_key = [], i_value = EmptySlice, i_status = OK\<rparr>)"
proof -
  let ?len = "length data" and ?n = "block_num_restarts data" and ?R = "block_restarts data"
  define N where "N = DecodeFixed32 (take 4 (drop (?len - 4) data))"
  note sz = well_formed_sizes[OF wf]
  from wf have len8: "8 \<le> ?len" by (simp add: well_formed_def)
  have len64: "?len < 2 ^ 64" using sz(5) by simp
  have ulen: "unat (of_nat ?len :: u64) = ?len"
    using len64 by (simp add: unat_of_nat)
  have ge8: "\<not> (of_nat ?len :: u64) < 8"
    using len8 ulen by (simp add: word_less_nat_alt)
  have ge4: "\<not> (of_nat ?len :: u64) < 4"
    using len8 ulen by (simp add: word_less_nat_alt)
  have uN: "unat N = ?n" by (simp add: block_num_restarts_def N_def)
  have "(of_nat (unat N) :: u32) = N" by simp
  then have N: "of_nat ?n = N" by (simp only: uN)
  let ?b = "\<lparr>b_data = data, b_size = of_nat ?len, b_restart_offset = 0\<rparr>"
  have nr: "NumRestarts ?b = Inr N"
    using ge8 ulen by (simp add: NumRestarts_def N_def)
  have n30: "?n < 2 ^ 30" by (rule well_formed_few_restarts[OF wf])
  have "unat (1 + N) = 1 + ?n"
    using n30 uN by (simp add: unat_word_ariths)
  moreover have "(ucast (1 + N) :: u64) = of_nat (unat (1 + N))"
    by (simp only: of_nat_unat)
  ultimately have "(ucast (1 + N) :: u64) = of_nat (1 + ?n)"
    by (simp only:)
  then have prod: "(ucast (1 + N) :: u64) * 4 = of_nat (4 * (?n + 1))"
    by simp
  have "(of_nat ?len :: u64) - of_nat (4 * (?n + 1)) = of_nat (?len - 4 * (?n + 1))"
    using sz(1) by (simp add: of_nat_diff)
  then have diff: "(of_nat ?len :: u64) - ucast (1 + N) * 4 = of_nat ?R"
    unfolding prod by (simp add: block_restarts_def)
  have R64: "?R < 2 ^ 64" using sz(2) by simp
  have "unat (of_nat ?R :: u64) = ?R" using R64 by (simp add: unat_of_nat)
  moreover have "(ucast (of_nat ?R :: u64) :: u32) = of_nat (unat (of_nat ?R :: u64))"
    by (simp only: of_nat_unat)
  ultimately have ro: "(ucast (of_nat ?R :: u64) :: u32) = of_nat ?R"
    by (simp only:)
  have "unat (ucast (of_nat ?R :: u32) :: u64) = ?R"
    using sz(2) by (simp only: unat_ucast_u32_u64 unat_of_nat_u32)
  moreover have "unat ((of_nat ?len :: u64) - 4) = ?len - 4"
    using len8 ulen by (simp add: unat_sub word_le_nat_alt)
  moreover have "?R \<le> ?len - 4" using sz(1) by simp
  ultimately have chk: "\<not> (of_nat ?len :: u64) - 4 < ucast (of_nat ?R :: u32)"
    by (simp add: word_less_nat_alt)
  have blk: "Block_new data =
      Inr \<lparr>b_data = data, b_size = of_nat ?len, b_restart_offset = of_nat ?R\<rparr>"
    by (simp add: Block_new_def Let_def ge4 nr diff ro chk)
  let ?b' = "\<lparr>b_data = data, b_size = of_nat ?len, b_restart_offset = of_nat ?R\<rparr>"
  have nr': "NumRestarts ?b' = Inr N"
    using ge8 ulen by (simp add: NumRestarts_def N_def)
  have nz: "N \<noteq> 0" using sz(4) uN by (auto simp: unat_eq_0)
  then have pos: "0 < N" by (simp add: word_greater_zero_iff)
  show ?thesis
    by (simp add: open_block_def NewIterator_def Iter_new_def blk ge8 nr' nz pos N)
qed

section \<open>The first and the last entry\<close>

lemma SeekToFirst_wf:
  assumes wf: "well_formed data" and it: "iterates data it"
    and es: "block_entries data = Some es"
  shows "\<exists>it' e. SeekToFirst it = Inr it' \<and> e \<in> set es \<and> e_offset e = 0 \<and>
      positioned it' e \<and> Valid it' \<and>
      iterates data it' \<and> i_status it' = i_status it \<and>
      i_restart_index it' < i_num_restarts it'"
proof -
  let ?R = "block_restarts data"
  note sz = well_formed_sizes[OF wf]
  note u = iterates_unat[OF wf it]
  have z: "(0::u32) < i_num_restarts it"
    using sz(4) by (simp add: word_less_nat_alt u)
  from wf have rp0: "restart_point data 0 = 0" by (simp add: well_formed_def)
  let ?it1 = "it\<lparr>i_key := [], i_restart_index := 0, i_restart_offset := - 1,
                  i_value := Slice 0 0\<rparr>"
  have seek: "SeekToRestartPoint it 0 = Inr ?it1"
    using SeekToRestartPoint_wf[OF wf it z] rp0 by simp
  from sz(4) have "0 < block_num_restarts data" by simp
  from restart_entry[OF wf es this] rp0 obtain xs e ys where
    split: "es = xs @ e # ys" and off: "e_offset e = 0" and
    ch: "chain data ?R 0 [] (e # ys)" by auto
  have it1: "iterates data ?it1" using it by (simp add: iterates_def)
  have neo1: "NextEntryOffset ?it1 = Inr (of_nat 0)" by (simp add: NextEntryOffset_def)
  from ch have e: "entry_at data ?R 0 (i_key ?it1) = Some e" by simp
  have ri1: "i_restart_index ?it1 < i_num_restarts ?it1" using z by simp
  from ParseNextKey_entry[OF wf it1 neo1 e ri1] obtain it' where
    parse: "ParseNextKey ?it1 = Inr (True, it')" and pos: "positioned it' e" and
    it': "iterates data it'" and st: "i_status it' = i_status ?it1" and
    ri': "i_restart_index it' < i_num_restarts it'"
    by blast
  from entry_at_bounds[OF e] have "e_offset e < ?R" by simp
  from positioned_Valid[OF wf it' pos this] have v: "Valid it'" .
  have "SeekToFirst it = Inr it'" using seek parse by (simp add: SeekToFirst_def)
  moreover have "e \<in> set es" using split by simp
  moreover have "i_status it' = i_status it" using st by simp
  ultimately show ?thesis using off pos v it' ri' by blast
qed

lemma SeekToLast_scan_chain:
  assumes wf: "well_formed data"
  shows "iterates data it \<Longrightarrow> NextEntryOffset it = Inr (of_nat off) \<Longrightarrow>
    chain data (block_restarts data) off (i_key it) (xs @ [e]) \<Longrightarrow>
    i_restart_index it < i_num_restarts it \<Longrightarrow>
    \<exists>it'. SeekToLast_scan it = Inr it' \<and> positioned it' e \<and>
      iterates data it' \<and> i_status it' = i_status it \<and>
      i_restart_index it' < i_num_restarts it'"
proof (induction xs arbitrary: it off)
  case Nil
  then have e: "entry_at data (block_restarts data) off (i_key it) = Some e"
    and last: "entry_end e = block_restarts data" by simp_all
  from ParseNextKey_entry[OF wf Nil.prems(1,2) e Nil.prems(4)] obtain it1 where
    parse: "ParseNextKey it = Inr (True, it1)" and pos: "positioned it1 e" and
    it1: "iterates data it1" and st: "i_status it1 = i_status it" and
    ri1: "i_restart_index it1 < i_num_restarts it1" and
    neo1: "NextEntryOffset it1 = Inr (of_nat (entry_end e))"
    by blast
  have "i_restarts it1 = of_nat (block_restarts data)" using it1 by (simp add: iterates_def)
  then have "SeekToLast_scan it = Inr it1"
    using parse neo1 last by (subst SeekToLast_scan.simps) simp
  with pos it1 st ri1 show ?case by blast
next
  case (Cons x xs)
  from Cons.prems(3) have x: "entry_at data (block_restarts data) off (i_key it) = Some x"
    and rest: "chain data (block_restarts data) (entry_end x) (e_key x) (xs @ [e])"
    by simp_all
  from ParseNextKey_entry[OF wf Cons.prems(1,2) x Cons.prems(4)] obtain it1 where
    parse: "ParseNextKey it = Inr (True, it1)" and pos: "positioned it1 x" and
    it1: "iterates data it1" and st: "i_status it1 = i_status it" and
    ri1: "i_restart_index it1 < i_num_restarts it1" and
    neo1: "NextEntryOffset it1 = Inr (of_nat (entry_end x))"
    by blast
  have key1: "i_key it1 = e_key x" using pos by (simp add: positioned_def)
  from chain_offsets[OF rest, of e]
  have "entry_end x \<le> e_offset e" "e_offset e < entry_end e"
    "entry_end e \<le> block_restarts data" by simp_all
  then have "entry_end x < block_restarts data" by simp
  then have lt: "(of_nat (entry_end x) :: u32) < of_nat (block_restarts data)"
    using well_formed_sizes(2)[OF wf] by (rule of_nat_less_u32)
  have r1: "i_restarts it1 = of_nat (block_restarts data)" using it1 by (simp add: iterates_def)
  have step: "SeekToLast_scan it = SeekToLast_scan it1"
    using parse neo1 lt r1 by (subst SeekToLast_scan.simps) simp
  from rest key1
  have "chain data (block_restarts data) (entry_end x) (i_key it1) (xs @ [e])" by simp
  from Cons.IH[OF it1 neo1 this ri1] step st show ?case by simp
qed

lemma SeekToLast_wf:
  assumes wf: "well_formed data" and it: "iterates data it"
    and es: "block_entries data = Some es"
  shows "\<exists>it'. SeekToLast it = Inr it' \<and> positioned it' (last es) \<and> es \<noteq> [] \<and> Valid it' \<and>
      iterates data it' \<and> i_status it' = i_status it \<and>
      i_restart_index it' < i_num_restarts it'"
proof -
  let ?R = "block_restarts data" and ?n = "block_num_restarts data"
  note sz = well_formed_sizes[OF wf]
  note u = iterates_unat[OF wf it]
  have nr: "i_num_restarts it - 1 = of_nat (?n - 1)"
    using it sz(4) by (simp add: iterates_def of_nat_diff)
  have un: "unat (of_nat (?n - 1) :: u32) = ?n - 1"
    using sz(3) by (simp add: unat_of_nat_u32)
  have lt: "(of_nat (?n - 1) :: u32) < i_num_restarts it"
    using sz(4) un by (simp add: word_less_nat_alt u)
  let ?it1 = "it\<lparr>i_key := [], i_restart_index := of_nat (?n - 1), i_restart_offset := - 1,
                  i_value := Slice (restart_point data (?n - 1)) 0\<rparr>"
  have seek: "SeekToRestartPoint it (i_num_restarts it - 1) = Inr ?it1"
    using SeekToRestartPoint_wf[OF wf it lt] by (simp only: nr un)
  from sz(4) have "?n - 1 < ?n" by simp
  from restart_entry[OF wf es this] obtain xs e ys where
    split: "es = xs @ e # ys" and
    ch: "chain data ?R (restart_point data (?n - 1)) [] (e # ys)" by blast
  have ne: "es \<noteq> []" using split by simp
  obtain zs l where zs: "e # ys = zs @ [l]"
    by (metis append_butlast_last_id list.distinct(1))
  have "es = (xs @ zs) @ [l]" using split zs by simp
  then have l: "last es = l" by (simp only: last_snoc)
  have it1: "iterates data ?it1" using it by (simp add: iterates_def)
  have neo1: "NextEntryOffset ?it1 = Inr (of_nat (restart_point data (?n - 1)))"
    by (simp add: NextEntryOffset_def)
  have ri1: "i_restart_index ?it1 < i_num_restarts ?it1" using lt by simp
  have "chain data ?R (restart_point data (?n - 1)) [] (zs @ [last es])"
    using ch unfolding zs l .
  then have "chain data ?R (restart_point data (?n - 1)) (i_key ?it1) (zs @ [last es])"
    by simp
  from SeekToLast_scan_chain[OF wf it1 neo1 this ri1] obtain it' where
    scan: "SeekToLast_scan ?it1 = Inr it'" and pos: "positioned it' (last es)" and
    it': "iterates data it'" and st: "i_status it' = i_status ?it1" and
    ri': "i_restart_index it' < i_num_restarts it'"
    by blast
  have "last es \<in> set es" using ne by simp
  from chain_offsets[OF well_formed_chain[OF wf es] this]
  have "e_offset (last es) < ?R" by simp
  from positioned_Valid[OF wf it' pos this] have v: "Valid it'" .
  have "SeekToLast it = Inr it'" using seek scan by (simp add: SeekToLast_def)
  moreover have "i_status it' = i_status it" using st by simp
  ultimately show ?thesis using pos ne v it' ri' by blast
qed

lemma Next_last:
  assumes wf: "well_formed data" and it: "iterates data it"
    and es: "block_entries data = Some (xs @ [e])"
    and pos: "positioned it e"
  shows "\<exists>it'. Next it = Inr it' \<and> \<not> Valid it' \<and> iterates data it' \<and>
      i_status it' = i_status it"
proof -
  let ?R = "block_restarts data"
  from well_formed_chain[OF wf es] have ch: "chain data ?R 0 [] (xs @ [e])" .
  from chain_append[OF ch] obtain off' prev' where
    e: "entry_at data ?R off' prev' = Some e" and
    che: "chain data ?R off' prev' [e]" by blast
  from che have last: "entry_end e = ?R" by simp
  from entry_at_bounds[OF e] have "e_offset e < ?R" by simp
  from positioned_Valid[OF wf it pos this] have v: "Valid it" .
  from positioned_NextEntryOffset[OF pos] last
  have "NextEntryOffset it = Inr (of_nat ?R)" by simp
  from ParseNextKey_end[OF it this] obtain it' where
    "ParseNextKey it = Inr (False, it')" "\<not> Valid it'" "iterates data it'"
    "i_status it' = i_status it" by blast
  with v show ?thesis by (simp add: Next_def)
qed

lemma Prev_rewind_first:
  assumes wf: "well_formed data"
  shows "iterates data it \<Longrightarrow> i_restart_index it < i_num_restarts it \<Longrightarrow> original = 0 \<Longrightarrow>
    \<exists>it'. Prev_rewind it original = Inr (False, it') \<and> \<not> Valid it' \<and> iterates data it' \<and>
      i_status it' = i_status it"
proof (induction it original rule: Prev_rewind.induct)
  case (1 it original)
  let ?rp = "restart_point data (unat (i_restart_index it))"
  have g: "GetRestartPoint it (i_restart_index it) = Inr (of_nat ?rp)"
    by (rule GetRestartPoint_wf[OF wf "1.prems"(1,2)])
  have le: "original \<le> (of_nat ?rp :: u32)" using "1.prems"(3) by simp
  show ?case
  proof (cases "i_restart_index it = 0")
    case True
    let ?it' = "it\<lparr>i_current := i_restarts it, i_restart_index := i_num_restarts it,
                    i_restart_offset := 0\<rparr>"
    have "Prev_rewind it original = Inr (False, ?it')"
      using g le True by (subst Prev_rewind.simps) simp
    moreover have "\<not> Valid ?it'" by (simp add: Valid_def)
    moreover have "iterates data ?it'" using "1.prems"(1) by (simp add: iterates_def)
    ultimately show ?thesis by auto
  next
    case False
    let ?it1 = "it\<lparr>i_restart_index := i_restart_index it - 1\<rparr>"
    have step: "Prev_rewind it original = Prev_rewind ?it1 original"
      using g le False by (subst Prev_rewind.simps) simp
    have it1: "iterates data ?it1" using "1.prems"(1) by (simp add: iterates_def)
    have "unat (i_restart_index it - 1) < unat (i_restart_index it)"
      using False by (simp add: unat_minus_one unat_gt_0 word_neq_0_conv)
    then have "i_restart_index it - 1 < i_restart_index it"
      by (simp only: word_less_nat_alt)
    then have ri1: "i_restart_index ?it1 < i_num_restarts ?it1"
      using "1.prems"(2) by simp
    from "1.IH"[OF g le False it1 ri1 "1.prems"(3)] step show ?thesis by simp
  qed
qed

lemma Prev_first:
  assumes wf: "well_formed data" and it: "iterates data it"
    and es: "block_entries data = Some es" and mem: "e \<in> set es"
    and pos: "positioned it e" and off: "e_offset e = 0"
    and ri: "i_restart_index it < i_num_restarts it"
  shows "\<exists>it'. Prev it = Inr it' \<and> \<not> Valid it' \<and> iterates data it' \<and>
      i_status it' = i_status it"
proof -
  have cur: "i_current it = 0" using pos off by (simp add: positioned_def)
  from chain_offsets[OF well_formed_chain[OF wf es] mem]
  have "e_offset e < block_restarts data" by simp
  from positioned_Valid[OF wf it pos this] have v: "Valid it" .
  from Prev_rewind_first[OF wf it ri cur] obtain it' where
    "Prev_rewind it (i_current it) = Inr (False, it')" "\<not> Valid it'" "iterates data it'"
    "i_status it' = i_status it" by blast
  with v show ?thesis by (simp add: Prev_def Let_def)
qed

section \<open>The states the operations keep to\<close>

lemma on_entryI:
  "block_entries data = Some es \<Longrightarrow> e \<in> set es \<Longrightarrow> positioned it e \<Longrightarrow>
   i_restart_index it < i_num_restarts it \<Longrightarrow> on_entry data it"
  by (auto simp: on_entry_def list_ex_iff)

lemma apply_operation_consistent:
  assumes wf: "well_formed data" and sorted: "sorted_block compare data"
    and ord: "total_order compare" and inv: "consistent data it"
    and pre: "op = OpNext \<or> op = OpPrev \<Longrightarrow> Valid it"
  shows "\<exists>it'. apply_operation compare it op = Some (Inr it') \<and> consistent data it' \<and>
      i_status it' = i_status it"
proof -
  from inv have it: "iterates data it" by (simp add: consistent_def)
  from wf obtain es where es: "block_entries data = Some es"
    by (auto simp: well_formed_def split: option.splits)
  have on: "\<exists>xs e ys. es = xs @ e # ys \<and> positioned it e \<and>
      i_restart_index it < i_num_restarts it" if "Valid it"
  proof -
    from inv that have "on_entry data it" by (simp add: consistent_def)
    with es obtain e where "e \<in> set es" "positioned it e"
      "i_restart_index it < i_num_restarts it"
      by (auto simp: on_entry_def list_ex_iff)
    with split_list[of e es] show ?thesis by blast
  qed
  show ?thesis
  proof (cases op)
    case OpSeekToFirst
    from SeekToFirst_wf[OF wf it es] obtain it' e where
      r: "SeekToFirst it = Inr it'" "iterates data it'" "i_status it' = i_status it" and
      e: "e \<in> set es" "positioned it' e" "i_restart_index it' < i_num_restarts it'"
      by blast
    from on_entryI[OF es e] have "on_entry data it'" .
    with OpSeekToFirst r show ?thesis
      by (simp add: consistent_def)
  next
    case OpSeekToLast
    from SeekToLast_wf[OF wf it es] obtain it' where
      r: "SeekToLast it = Inr it'" "iterates data it'" "i_status it' = i_status it" and
      ne: "es \<noteq> []" and
      e: "positioned it' (last es)" "i_restart_index it' < i_num_restarts it'"
      by blast
    from ne have "last es \<in> set es" by simp
    from on_entryI[OF es this e] have "on_entry data it'" .
    with OpSeekToLast r show ?thesis
      by (simp add: consistent_def)
  next
    case (OpSeek target)
    from Seek_well_formed[OF wf sorted ord it es, of target] obtain it' where
      s: "Seek compare it target = Some (Inr it')" and st: "i_status it' = i_status it" and
      it': "iterates data it'" and
      res: "case find (\<lambda>e. 0 \<le> compare (e_key e) target) es of
         None \<Rightarrow> \<not> Valid it'
       | Some e \<Rightarrow> Valid it' \<and> positioned it' e \<and>
           i_restart_index it' < i_num_restarts it'"
      by blast
    have "Valid it' \<longrightarrow> on_entry data it'"
    proof (cases "find (\<lambda>e. 0 \<le> compare (e_key e) target) es")
      case None
      with res show ?thesis by simp
    next
      case (Some e)
      then have "e \<in> set es" by (auto simp: find_Some_iff)
      moreover from Some res have "positioned it' e"
        and "i_restart_index it' < i_num_restarts it'" by simp_all
      ultimately have "on_entry data it'" by (rule on_entryI[OF es])
      then show ?thesis by simp
    qed
    with OpSeek s st it' show ?thesis by (simp add: consistent_def)
  next
    case OpNext
    with pre have "Valid it" by simp
    from on[OF this] obtain xs e ys where split: "es = xs @ e # ys" and
      pos: "positioned it e" and ri: "i_restart_index it < i_num_restarts it" by blast
    show ?thesis
    proof (cases ys)
      case Nil
      with es split have "block_entries data = Some (xs @ [e])" by simp
      from Next_last[OF wf it this pos] OpNext show ?thesis
        by (auto simp: consistent_def)
    next
      case (Cons b ys')
      with es split have es': "block_entries data = Some (xs @ e # b # ys')" by simp
      from Next_positioned[OF wf it es' pos ri] obtain it1 where
        r: "Next it = Inr it1" "iterates data it1" "i_status it1 = i_status it" and
        e: "positioned it1 b" "i_restart_index it1 < i_num_restarts it1" by blast
      have "b \<in> set es" using split Cons by simp
      from on_entryI[OF es this e] have "on_entry data it1" .
      with OpNext r show ?thesis
        by (simp add: consistent_def)
    qed
  next
    case OpPrev
    with pre have "Valid it" by simp
    from on[OF this] obtain xs e ys where split: "es = xs @ e # ys" and
      pos: "positioned it e" and ri: "i_restart_index it < i_num_restarts it" by blast
    show ?thesis
    proof (cases xs rule: rev_cases)
      case Nil
      with well_formed_chain[OF wf es] split
      have "entry_at data (block_restarts data) 0 [] = Some e" by simp
      from entry_at_bounds[OF this] have off: "e_offset e = 0" by simp
      have "e \<in> set es" using split by simp
      from Prev_first[OF wf it es this pos off ri] OpPrev show ?thesis
        by (auto simp: consistent_def)
    next
      case (snoc xs' a)
      with es split have es': "block_entries data = Some (xs' @ a # e # ys)" by simp
      from Prev_positioned[OF wf it es' pos ri] obtain it2 where
        r: "Prev it = Inr it2" "iterates data it2" "i_status it2 = i_status it" and
        e: "positioned it2 a" "i_restart_index it2 < i_num_restarts it2" by blast
      have "a \<in> set es" using split snoc by simp
      from on_entryI[OF es this e] have "on_entry data it2" .
      with OpPrev r show ?thesis
        by (simp add: consistent_def)
    qed
  qed
qed

text \<open>
  The iterator that \<^verbatim>\<open>NewIterator\<close> returns for a well-formed block: the constructor
  and \<^verbatim>\<open>NewIterator\<close> raise no fault, and the iterator is over the block, invalid, with
  the status ok.
\<close>

theorem open_block_consistent:
  assumes wf: "well_formed data"
  shows "\<exists>it. open_block data = Inr (BlockIterator it) \<and> consistent data it \<and>
      \<not> Valid it \<and> i_status it = OK"
proof -
  let ?it = "\<lparr>i_data = data, i_restarts = of_nat (block_restarts data),
        i_num_restarts = of_nat (block_num_restarts data),
        i_current = of_nat (block_restarts data),
        i_restart_index = of_nat (block_num_restarts data), i_restart_offset = 0,
        i_key = [], i_value = EmptySlice, i_status = OK\<rparr>"
  have "open_block data = Inr (BlockIterator ?it)" by (rule open_block_well_formed[OF wf])
  moreover have v: "\<not> Valid ?it" by (simp add: Valid_def)
  moreover have "iterates data ?it" by (simp add: iterates_def)
  then have "consistent data ?it" using v by (simp add: consistent_def)
  moreover have "i_status ?it = OK" by simp
  ultimately show ?thesis by blast
qed

lemma consistent_S2: "consistent block_S2 iter_S2"
proof -
  have "\<not> Valid iter_S2" by (simp add: Valid_def iter_S2_def)
  with iterates_S2 show ?thesis by (simp add: consistent_def)
qed

theorem open_block_consistent_witness:
  "well_formed block_S2 \<and> open_block block_S2 = Inr (BlockIterator iter_S2) \<and>
   consistent block_S2 iter_S2 \<and> \<not> Valid iter_S2 \<and> i_status iter_S2 = OK"
proof -
  from open_block_consistent[OF well_formed_S2] obtain it where
    "open_block block_S2 = Inr (BlockIterator it)" and
    r: "consistent block_S2 it" "\<not> Valid it" "i_status it = OK" by blast
  with open_block_S2 have "it = iter_S2" by simp
  with r open_block_S2 well_formed_S2 show ?thesis by simp
qed

text \<open>
  On a well-formed block whose keys do not decrease under the comparator, a total order,
  every run of positioning operations from a consistent iterator returns: the binary
  search ends, no read leaves the buffer, and the only fault is the assertion of
  \<^verbatim>\<open>Next\<close> or \<^verbatim>\<open>Prev\<close> on an iterator that is not valid. The iterator it leaves is
  consistent, valid only on an entry of the block, and the status is the one it began
  with: no corruption is reported.
\<close>

theorem run_consistent:
  assumes wf: "well_formed data" and sorted: "sorted_block compare data"
    and ord: "total_order compare"
  shows "consistent data it \<Longrightarrow>
    (\<exists>r. run compare it ops = Some r \<and>
       (case r of
          Inl f \<Rightarrow> f = AssertionFailed
        | Inr it' \<Rightarrow> consistent data it' \<and> i_status it' = i_status it))"
proof (induction ops arbitrary: it)
  case Nil
  then show ?case by simp
next
  case (Cons op ops)
  show ?case
  proof (cases "(op = OpNext \<or> op = OpPrev) \<and> \<not> Valid it")
    case True
    then have "apply_operation compare it op = Some (Inl AssertionFailed)"
      by (auto simp: Next_def Prev_def)
    then show ?thesis by simp
  next
    case False
    then have pre: "op = OpNext \<or> op = OpPrev \<Longrightarrow> Valid it" by blast
    from apply_operation_consistent[OF wf sorted ord Cons.prems pre] obtain it1 where
      a: "apply_operation compare it op = Some (Inr it1)" and
      c1: "consistent data it1" and s1: "i_status it1 = i_status it"
      by blast
    from Cons.IH[OF c1] obtain r where
      r: "run compare it1 ops = Some r" and
      c: "case r of Inl f \<Rightarrow> f = AssertionFailed
          | Inr it' \<Rightarrow> consistent data it' \<and> i_status it' = i_status it1"
      by blast
    have "run compare it (op # ops) = Some r" using a r by simp
    moreover have "case r of Inl f \<Rightarrow> f = AssertionFailed
          | Inr it' \<Rightarrow> consistent data it' \<and> i_status it' = i_status it"
      using c s1 by (cases r) simp_all
    ultimately show ?thesis by blast
  qed
qed

theorem run_consistent_witness:
  "well_formed block_S2 \<and> sorted_block bytewise block_S2 \<and> total_order bytewise \<and>
   consistent block_S2 iter_S2 \<and>
   run bytewise iter_S2 [OpSeekToLast, OpPrev, OpSeek [107, 48, 50], OpNext] =
     Some (Inr (iter_S2\<lparr>i_current := 12, i_restart_index := 0, i_restart_offset := 2,
                        i_key := [107, 48, 51], i_value := Slice 16 1\<rparr>)) \<and>
   consistent block_S2
     (iter_S2\<lparr>i_current := 12, i_restart_index := 0, i_restart_offset := 2,
              i_key := [107, 48, 51], i_value := Slice 16 1\<rparr>)"
proof -
  let ?ops = "[OpSeekToLast, OpPrev, OpSeek [107, 48, 50], OpNext]"
  let ?it = "iter_S2\<lparr>i_current := 12, i_restart_index := 0, i_restart_offset := 2,
                        i_key := [107, 48, 51], i_value := Slice 16 1\<rparr>"
  have run: "run bytewise iter_S2 ?ops = Some (Inr ?it)"
    by code_simp
  from run_consistent[OF well_formed_S2 sorted_block_S2 total_order_bytewise consistent_S2,
      of ?ops]
  obtain r where a: "run bytewise iter_S2 ?ops = Some r" and
    c: "case r of Inl f \<Rightarrow> f = AssertionFailed
     | Inr it' \<Rightarrow> consistent block_S2 it' \<and> i_status it' = i_status iter_S2"
    by blast
  from a have "r = Inr ?it" unfolding run by simp
  with c have "consistent block_S2 ?it" by simp
  with run well_formed_S2 sorted_block_S2 total_order_bytewise consistent_S2
  show ?thesis by blast
qed

end
